theory Spec2Isabelle
  imports Main "HOL-Library.Sublist" "HOL-Library.AList"
begin

section \<open>Errors and Python list indexing\<close>

text \<open>
  The exceptions the modelled code can raise. \<open>RegexError\<close> is Python's \<open>re.error\<close>,
  \<open>IndexError\<close> and \<open>KeyError\<close> are raised by list and dictionary lookups,
  \<open>TypeError\<close> by iterating over \<open>None\<close>. \<open>Unsupported\<close> is not a Python exception:
  the model of \<open>re.subn\<close> below returns it for a pattern outside the fragment of the
  regular expression language that it covers.
\<close>

datatype error = IndexError | KeyError | StopIteration | TypeError | RegexError | Unsupported

text \<open>Python list indexing: a negative index counts from the end of the list.\<close>

definition py_index :: "nat \<Rightarrow> int \<Rightarrow> nat option" where
  "py_index n i =
     (if 0 \<le> i \<and> i < int n then Some (nat i)
      else if - int n \<le> i \<and> i < 0 then Some (nat (int n + i))
      else None)"

section \<open>The token allocator (class Token)\<close>

text \<open>
  \<open>Token.chars\<close> is \<open>string.digits + string.ascii_letters\<close>: the ten digits, the lower
  case letters, the upper case letters.
\<close>

definition chars :: string where
  "chars = ''0123456789abcdefghijklmnopqrstuvwxyzABCDEFGHIJKLMNOPQRSTUVWXYZ''"

text \<open>
  A generator \<open>(char for char in Token.chars)\<close> is modelled by the characters it has
  yet to yield; \<open>next\<close> on it yields the first of them, and raises StopIteration
  (here \<open>None\<close>) when none is left.
\<close>

definition get_gen :: string where
  "get_gen = chars"

fun gen_next :: "string \<Rightarrow> (char \<times> string) option" where
  "gen_next [] = None"
| "gen_next (c # cs) = Some (c, cs)"

text \<open>
  The allocator's state: \<open>self.generators\<close> and \<open>self.digits\<close>. Every element of
  \<open>digits\<close> is a one-character string, so the list of them is a \<open>char list\<close>.
\<close>

record Token =
  generators :: "string list"
  digits :: "string"

definition Token_init :: Token where
  "Token_init =
     (case gen_next get_gen of
        Some (c, g) \<Rightarrow> \<lparr>generators = [g], digits = [c]\<rparr>
      | None \<Rightarrow> \<lparr>generators = [[]], digits = []\<rparr>)"

text \<open>The property \<open>token\<close>: the digits joined in list order, between angle brackets.\<close>

definition Token_token :: "Token \<Rightarrow> string" where
  "Token_token t = ''<'' @ digits t @ ''>''"

text \<open>
  The \<open>while\<close> loop of \<open>__next__\<close>, with \<open>index\<close> as the loop variable. The loop is left
  by one of its two \<open>break\<close>s or by its condition.
\<close>

function next_loop :: "Token \<Rightarrow> int \<Rightarrow> error + Token" where
  "next_loop t index =
     (if index > 0 - int (length (digits t)) then
        (case py_index (length (generators t)) index of
           None \<Rightarrow> Inl IndexError
         | Some gi \<Rightarrow>
             (case gen_next (generators t ! gi) of
                Some (c, g) \<Rightarrow>
                  (case py_index (length (digits t)) index of
                     None \<Rightarrow> Inl IndexError
                   | Some di \<Rightarrow>
                       Inr (t\<lparr>generators := (generators t)[gi := g],
                              digits := (digits t)[di := c]\<rparr>))
              | None \<Rightarrow>
                  (case gen_next get_gen of
                     None \<Rightarrow> Inl StopIteration
                   | Some (c0, g0) \<Rightarrow>
                       (case py_index (length (digits t)) index of
                          None \<Rightarrow> Inl IndexError
                        | Some di \<Rightarrow>
                            (let t1 = t\<lparr>generators := (generators t)[gi := g0],
                                         digits := (digits t)[di := c0]\<rparr>;
                                 index1 = index - 1
                             in if index1 = -1 * int (length (digits t1)) then
                                  Inr (t1\<lparr>generators := generators t1 @ [g0],
                                          digits := digits t1 @ [c0]\<rparr>)
                                else next_loop t1 index1)))))
      else Inr t)"
  by pat_completeness auto
termination
  by (relation "measure (\<lambda>(t, index). nat (int (length (digits t)) + index))") auto

declare next_loop.simps [simp del]

definition Token_next :: "Token \<Rightarrow> error + (string \<times> Token)" where
  "Token_next t =
     (case next_loop t 0 of
        Inl e \<Rightarrow> Inl e
      | Inr t' \<Rightarrow> Inr (Token_token t', t'))"

text \<open>\<open>n\<close> successive calls of \<open>next\<close>, collecting the tokens returned.\<close>

fun Token_take :: "nat \<Rightarrow> Token \<Rightarrow> error + (string list \<times> Token)" where
  "Token_take 0 t = Inr ([], t)"
| "Token_take (Suc n) t =
     (case Token_next t of
        Inl e \<Rightarrow> Inl e
      | Inr (s, t1) \<Rightarrow>
          (case Token_take n t1 of
             Inl e \<Rightarrow> Inl e
           | Inr (ss, t2) \<Rightarrow> Inr (s # ss, t2)))"


section \<open>Strings\<close>

text \<open>
  Python's \<open>str\<close> is modelled by \<open>string\<close>, with \<open>char\<close> read as the code points below
  256. The characters \<open>str.isspace\<close> accepts in that range are the ones below;
  \<open>str.rstrip()\<close>, \<open>str.strip()\<close> and \<open>str.split()\<close> without arguments use the same set.
\<close>

abbreviation newline :: char where
  "newline \<equiv> CHR 0x0A"

abbreviation backslash :: char where
  "backslash \<equiv> CHR 0x5C"

definition isspace :: "char \<Rightarrow> bool" where
  "isspace c \<longleftrightarrow>
     c \<in> set [CHR 0x09, CHR 0x0A, CHR 0x0B, CHR 0x0C, CHR 0x0D,
              CHR 0x1C, CHR 0x1D, CHR 0x1E, CHR 0x1F, CHR 0x20, CHR 0x85, CHR 0xA0]"

definition rstrip :: "string \<Rightarrow> string" where
  "rstrip s = rev (dropWhile isspace (rev s))"

definition strip :: "string \<Rightarrow> string" where
  "strip s = dropWhile isspace (rstrip s)"

text \<open>\<open>line.split()\<close>: the maximal runs of characters that are not whitespace.\<close>

function py_split :: "string \<Rightarrow> string list" where
  "py_split s =
     (case dropWhile isspace s of
        [] \<Rightarrow> []
      | c # cs \<Rightarrow>
          (c # takeWhile (\<lambda>x. \<not> isspace x) cs) # py_split (dropWhile (\<lambda>x. \<not> isspace x) cs))"
  by pat_completeness auto
termination
proof (relation "measure length")
  fix s :: string and c cs
  assume "dropWhile isspace s = c # cs"
  then have "length (c # cs) \<le> length s"
    by (metis length_dropWhile_le)
  moreover have "length (dropWhile (\<lambda>x. \<not> isspace x) cs) \<le> length cs"
    by (rule length_dropWhile_le)
  ultimately show "(dropWhile (\<lambda>x. \<not> isspace x) cs, s) \<in> measure length"
    by simp
qed simp

declare py_split.simps [simp del]

text \<open>\<open>sep.join(items)\<close>.\<close>

fun join :: "string \<Rightarrow> string list \<Rightarrow> string" where
  "join sep [] = []"
| "join sep [x] = x"
| "join sep (x # y # ys) = x @ sep @ join sep (y # ys)"

section \<open>The line encoder\<close>

text \<open>
  The character class of \<open>encode_punct_and_digits\<close>,
  \<^verbatim>\<open>[\d|!"#$%&'()*+,./:;<=>?@[\]^`{|}~]\<close>: the decimal digits and the punctuation
  listed. Hyphen, underscore and backslash are not in it.
\<close>

definition punct_or_digit :: "char \<Rightarrow> bool" where
  "punct_or_digit c \<longleftrightarrow>
     c \<in> set (''0123456789'' @ ''|!'' @ [CHR 0x22] @ ''#$%&'' @ [CHR 0x27]
              @ ''()*+,./:;<=>?@[]^'' @ [CHR 0x60] @ ''{|}~'')"

text \<open>The marker \<^verbatim>\<open>_$_\<close> put on both sides of every run.\<close>

definition delim :: string where
  "delim = ''_$_''"

text \<open>
  \<open>re.sub\<close> of the class repeated (\<open>+\<close>, greedy) by \<^verbatim>\<open>_$_\1_$_\<close>: every maximal run of
  characters of the class is wrapped in the marker.
\<close>

function encode_punct_and_digits :: "string \<Rightarrow> string" where
  "encode_punct_and_digits [] = []"
| "encode_punct_and_digits (c # cs) =
     (if punct_or_digit c then
        delim @ (c # takeWhile punct_or_digit cs) @ delim
          @ encode_punct_and_digits (dropWhile punct_or_digit cs)
      else c # encode_punct_and_digits cs)"
  by pat_completeness auto
termination
proof (relation "measure length")
  fix c :: char and cs
  have "length (dropWhile punct_or_digit cs) \<le> length cs"
    by (rule length_dropWhile_le)
  then show "(dropWhile punct_or_digit cs, c # cs) \<in> measure length"
    by simp
qed simp_all

text \<open>
  The pattern \<^verbatim>\<open>_\$_(.*?)_\$_\<close> after its opening marker: the shortest text without a
  newline (\<open>.\<close> does not match one) that is followed by the closing marker, and what
  follows that marker.
\<close>

fun find_close :: "string \<Rightarrow> (string \<times> string) option" where
  "find_close [] = None"
| "find_close (c # cs) =
     (if prefix delim (c # cs) then Some ([], drop (length delim) (c # cs))
      else if c = newline then None
      else (case find_close cs of
              None \<Rightarrow> None
            | Some (t, rest) \<Rightarrow> Some (c # t, rest)))"

text \<open>
  \<open>re.findall\<close> of that pattern: the texts between the markers of the matches found
  from left to right, a match being looked for again after the end of the last one.
\<close>

function findall_wrapped :: "string \<Rightarrow> string list" where
  "findall_wrapped [] = []"
| "findall_wrapped (c # cs) =
     (if prefix delim (c # cs) then
        (case find_close (drop (length delim) (c # cs)) of
           Some (t, rest) \<Rightarrow> t # findall_wrapped rest
         | None \<Rightarrow> findall_wrapped cs)
      else findall_wrapped cs)"
  by pat_completeness auto
termination
proof -
  have close: "length rest \<le> length s" if "find_close s = Some (t, rest)" for s t rest
    using that
    by (induction s arbitrary: t) (auto simp: delim_def split: if_splits option.splits)
  show ?thesis
    by (relation "measure length") (auto dest!: close simp: delim_def)
qed

text \<open>\<open>re.sub\<close> of \<^verbatim>\<open>_\$_.*?_\$_\<close> by \<^verbatim>\<open>#\<close>: every such match becomes the placeholder.\<close>

function sub_wrapped :: "string \<Rightarrow> string" where
  "sub_wrapped [] = []"
| "sub_wrapped (c # cs) =
     (if prefix delim (c # cs) then
        (case find_close (drop (length delim) (c # cs)) of
           Some (t, rest) \<Rightarrow> CHR ''#'' # sub_wrapped rest
         | None \<Rightarrow> c # sub_wrapped cs)
      else c # sub_wrapped cs)"
  by pat_completeness auto
termination
proof -
  have close: "length rest \<le> length s" if "find_close s = Some (t, rest)" for s t rest
    using that
    by (induction s arbitrary: t) (auto simp: delim_def split: if_splits option.splits)
  show ?thesis
    by (relation "measure length") (auto dest!: close simp: delim_def)
qed

text \<open>
  The patterns \<^verbatim>\<open> {(.*)}$\<close> and \<^verbatim>\<open> \{.*\}$\<close>, after their opening space and brace.
  \<open>$\<close> matches at the end of the string and before a newline that ends the string, and
  \<open>.*\<close> takes no newline: the closing brace is the last character, or the one before a
  final newline. The result is the text between the braces and what is left after the
  match.
\<close>

definition trailer_body :: "string \<Rightarrow> (string \<times> string) option" where
  "trailer_body r =
     (if r \<noteq> [] \<and> last r = CHR ''}'' \<and> newline \<notin> set (butlast r) then
        Some (butlast r, [])
      else if 2 \<le> length r \<and> last r = newline \<and> last (butlast r) = CHR ''}''
              \<and> newline \<notin> set (butlast (butlast r)) then
        Some (butlast (butlast r), [newline])
      else None)"

text \<open>
  The leftmost match of such a pattern: the text before it, the text between the
  braces, and the text after it.
\<close>

fun search_trailer :: "string \<Rightarrow> (string \<times> string \<times> string) option" where
  "search_trailer [] = None"
| "search_trailer (c # cs) =
     (case (if prefix '' {'' (c # cs) then trailer_body (drop 2 (c # cs)) else None) of
        Some (g, after) \<Rightarrow> Some ([], g, after)
      | None \<Rightarrow>
          (case search_trailer cs of
             None \<Rightarrow> None
           | Some (before, g, after) \<Rightarrow> Some (c # before, g, after)))"

text \<open>
  \<open>clean_encoding\<close>. The second \<open>re.sub\<close> deletes the leftmost match; what is left
  after a match is empty or one newline, where the pattern does not match again.
\<close>

definition clean_encoding :: "string \<Rightarrow> string" where
  "clean_encoding line =
     (if line \<noteq> [] then
        (let line1 = sub_wrapped line;
             line2 = (case search_trailer line1 of
                        None \<Rightarrow> line1
                      | Some (before, g, after) \<Rightarrow> before @ after)
         in if line2 \<noteq> [] then line2 else [])
      else [])"

definition split_trailer :: "string \<Rightarrow> string \<times> string" where
  "split_trailer line =
     (let trailer = (case search_trailer (rstrip line) of
                       Some (before, g, after) \<Rightarrow> g
                     | None \<Rightarrow> []);
          items = findall_wrapped line;
          newtraileritems = (if items \<noteq> [] then join '' '' items else []);
          trailer1 = (if trailer \<noteq> [] \<or> newtraileritems \<noteq> []
                      then '' {'' @ strip (trailer @ '' '' @ newtraileritems) @ ''}''
                      else trailer);
          line1 = clean_encoding line
      in (rstrip line1, trailer1))"

text \<open>\<open>RegExCompressor.encode\<close>.\<close>

definition encode :: "string list \<Rightarrow> string list" where
  "encode chunk = map encode_punct_and_digits chunk"


section \<open>The adjacency graph (class PhraseNode)\<close>

text \<open>
  One node per word: \<open>parents\<close> is the node's dictionary from a predecessor word to the
  number of times the pair was seen, \<open>nodes\<close> lists the successor words recorded as
  \<open>nd_\<close> attributes. \<open>PhraseNode.phrases\<close>, the class-level dictionary from a word to
  its node, is an association list in insertion order.
\<close>

record PhraseNode =
  parents :: "(string \<times> nat) list"
  nodes :: "string list"

type_synonym phrases = "(string \<times> PhraseNode) list"

text \<open>
  \<open>PhraseNode(rootword)\<close>: a node is created and registered unless the word has one.
  The object returned only holds the word as its key.
\<close>

definition PhraseNode :: "string \<Rightarrow> phrases \<Rightarrow> phrases" where
  "PhraseNode rootword ph =
     (if map_of ph rootword = None
      then AList.update rootword \<lparr>parents = [], nodes = []\<rparr> ph
      else ph)"

text \<open>
  \<open>self.add_node(node)\<close>, with \<open>self\<close> and \<open>node\<close> given by their words; both are looked
  up in \<open>PhraseNode.phrases\<close>. The count returned is \<open>node.parents[self._root]\<close>.
\<close>

definition add_node :: "string \<Rightarrow> string \<Rightarrow> phrases \<Rightarrow> error + (nat \<times> phrases)" where
  "add_node self node ph =
     (case map_of ph self of
        None \<Rightarrow> Inl KeyError
      | Some s \<Rightarrow>
          (let ph1 = (if node \<notin> set (nodes s)
                      then AList.update self (s\<lparr>nodes := nodes s @ [node]\<rparr>) ph
                      else ph)
           in case map_of ph1 node of
                None \<Rightarrow> Inl KeyError
              | Some n \<Rightarrow>
                  (let count = (case map_of (parents n) self of
                                  Some k \<Rightarrow> k + 1
                                | None \<Rightarrow> 1)
                   in Inr (count,
                           AList.update node
                             (n\<lparr>parents := AList.update self count (parents n)\<rparr>) ph1))))"

section \<open>The rule set and the compressor state\<close>

record RegExTuple =
  replaces :: string
  regex :: string
  token :: string

text \<open>
  The state of a \<open>RegExCompressor\<close>, together with the class-level
  \<open>PhraseNode.phrases\<close> it works on. \<open>expressions\<close> is the ordered dictionary
  \<open>self._expressions\<close>, \<open>self_token\<close> the allocator \<open>self.token\<close>. \<open>self.root\<close> is the
  node of the word \<open>"\n"\<close>.
\<close>

record RegExCompressor =
  phrases :: phrases
  expressions :: "(string \<times> RegExTuple) list"
  self_token :: Token
  compressed_output :: "string list option"

definition root :: string where
  "root = [newline]"

definition RegExCompressor_init :: RegExCompressor where
  "RegExCompressor_init =
     \<lparr>phrases = PhraseNode root [], expressions = [], self_token = Token_init,
      compressed_output = None\<rparr>"

text \<open>\<open>gen_regex\<close>, given the words of the two nodes. No rule is returned as \<open>None\<close>.\<close>

definition gen_regex ::
  "string \<Rightarrow> string \<Rightarrow> RegExCompressor \<Rightarrow> error + (RegExTuple option \<times> RegExCompressor)"
where
  "gen_regex node1 node2 st =
     (let repl = node1 @ '' '' @ node2
      in if map_of (expressions st) repl = None then
           (case Token_next (self_token st) of
              Inl e \<Rightarrow> Inl e
            | Inr (tok, t') \<Rightarrow>
                (let r = \<lparr>replaces = repl, regex = repl, token = tok\<rparr>
                 in Inr (Some r,
                         st\<lparr>self_token := t',
                            expressions := AList.update repl r (expressions st)\<rparr>)))
         else Inr (None, st))"

text \<open>
  \<open>re.subn(pattern, repl, line)\<close> belongs to Python's library, not to the program. The
  functions that call it take it as the parameter \<open>subn\<close>: the pattern, the replacement
  and the line are its arguments, the new line and the number of substitutions its
  result.
\<close>

type_synonym subn = "string \<Rightarrow> string \<Rightarrow> string \<Rightarrow> error + (string \<times> nat)"

definition apply_one :: "subn \<Rightarrow> string \<Rightarrow> RegExTuple \<Rightarrow> error + (string \<times> nat)" where
  "apply_one subn line r = subn (regex r) (token r) line"

text \<open>The loop of \<open>apply_regexes\<close> over the rules, in the order of the dictionary.\<close>

fun apply_rules :: "subn \<Rightarrow> RegExTuple list \<Rightarrow> string \<Rightarrow> nat \<Rightarrow> error + (string \<times> nat)" where
  "apply_rules subn [] line changes = Inr (line, changes)"
| "apply_rules subn (r # rs) line changes =
     (case apply_one subn line r of
        Inl e \<Rightarrow> Inl e
      | Inr (line1, cdelta) \<Rightarrow> apply_rules subn rs line1 (changes + cdelta))"

definition apply_regexes :: "subn \<Rightarrow> RegExCompressor \<Rightarrow> string \<Rightarrow> error + (string \<times> nat)" where
  "apply_regexes subn st line = apply_rules subn (map snd (expressions st)) line 0"

text \<open>
  \<open>map_nodes\<close>. \<open>lastnode\<close> is \<open>None\<close> while it is the object \<open>self.root\<close> and the word of
  the last node afterwards: \<open>lastnode != self.root\<close> compares objects, and every word
  gets a new object. The catch-up list holds pairs of a rule and a line index.
\<close>

type_synonym todo_list = "(RegExTuple \<times> nat) list"

fun map_nodes_loop ::
  "string list \<Rightarrow> string option \<Rightarrow> nat \<Rightarrow> todo_list \<Rightarrow> RegExCompressor
     \<Rightarrow> error + (todo_list \<times> RegExCompressor)"
where
  "map_nodes_loop [] lastnode index todo st = Inr (todo, st)"
| "map_nodes_loop (word # ws) lastnode index todo st =
     (if word \<noteq> [] then
        (let ph = PhraseNode word (phrases st);
             self = (case lastnode of None \<Rightarrow> root | Some w \<Rightarrow> w)
         in case add_node self word ph of
              Inl e \<Rightarrow> Inl e
            | Inr (count, ph1) \<Rightarrow>
                (let st1 = st\<lparr>phrases := ph1\<rparr>
                 in if count \<ge> 5 \<and> lastnode \<noteq> None then
                      (case gen_regex self word st1 of
                         Inl e \<Rightarrow> Inl e
                       | Inr (new_reg, st2) \<Rightarrow>
                           (case new_reg of
                              Some r \<Rightarrow>
                                map_nodes_loop ws (Some word) index (todo @ [(r, index)]) st2
                            | None \<Rightarrow> map_nodes_loop ws (Some word) index todo st2))
                    else map_nodes_loop ws (Some word) index todo st1))
      else map_nodes_loop ws lastnode index todo st)"

definition map_nodes ::
  "string \<Rightarrow> nat \<Rightarrow> todo_list \<Rightarrow> RegExCompressor \<Rightarrow> error + (todo_list \<times> RegExCompressor)"
where
  "map_nodes line index todo st = map_nodes_loop (py_split line) None index todo st"

section \<open>The compression loop\<close>

definition CHUNK_SIZE :: nat where
  "CHUNK_SIZE = 25"

text \<open>
  The body of the first loop of \<open>press_mainloop\<close> for the element \<open>line\<close> of the chunk at
  \<open>index\<close>: the rules are applied to the body that \<open>split_trailer\<close> returns, and the
  result is what the loop stores in \<open>chunk[index]\<close>; \<open>map_nodes\<close> gets the variable
  \<open>line\<close>, the body before the rules were applied. The last assignment,
  \<open>line = line + trailer\<close>, is to a variable that is not read again.
\<close>

definition press_line ::
  "subn \<Rightarrow> nat \<Rightarrow> string \<Rightarrow> todo_list \<Rightarrow> RegExCompressor
     \<Rightarrow> error + (string \<times> nat \<times> todo_list \<times> RegExCompressor)"
where
  "press_line subn index line0 todo st =
     (let (line, trailer) = split_trailer line0
      in case apply_regexes subn st line of
           Inl e \<Rightarrow> Inl e
         | Inr (new, changes_delta) \<Rightarrow>
             (case map_nodes line index todo st of
                Inl e \<Rightarrow> Inl e
              | Inr (todo1, st1) \<Rightarrow> Inr (new, changes_delta, todo1, st1)))"

text \<open>The first loop of \<open>press_mainloop\<close>, from \<open>index\<close> on.\<close>

function first_pass ::
  "subn \<Rightarrow> nat \<Rightarrow> string list \<Rightarrow> nat \<Rightarrow> todo_list \<Rightarrow> RegExCompressor
     \<Rightarrow> error + (string list \<times> nat \<times> todo_list \<times> RegExCompressor)"
where
  "first_pass subn index chunk changes todo st =
     (if index < length chunk then
        (case press_line subn index (chunk ! index) todo st of
           Inl e \<Rightarrow> Inl e
         | Inr (new, changes_delta, todo1, st1) \<Rightarrow>
             first_pass subn (index + 1) (chunk[index := new]) (changes + changes_delta)
               todo1 st1)
      else Inr (chunk, changes, todo, st))"
  by pat_completeness auto
termination
  by (relation "measure (\<lambda>(subn, index, chunk, changes, todo, st). length chunk - index)") auto

declare first_pass.simps [simp del]

text \<open>
  The inner loop of the catch-up, over the catch-up list, for one line. \<open>line\<close> is the
  loop variable of the outer loop: the element of the chunk as it was when the outer
  loop reached it. Every turn assigns \<open>chunk[index]\<close>, and no other element; \<open>cur\<close> is
  that element. An entry is overwritten by the popped last entry when its position in
  the list equals the line index stored with it and it is not the last one; the
  iteration then goes on over the shortened list.
\<close>

function catch_up_line ::
  "subn \<Rightarrow> string \<Rightarrow> nat \<Rightarrow> string \<Rightarrow> nat \<Rightarrow> todo_list
     \<Rightarrow> error + (string \<times> nat \<times> todo_list)"
where
  "catch_up_line subn line todo_index cur changes todo =
     (if todo_index < length todo then
        (let (r, stopline) = todo ! todo_index
         in case apply_one subn line r of
              Inl e \<Rightarrow> Inl e
            | Inr (new, changes_delta) \<Rightarrow>
                catch_up_line subn line (todo_index + 1) new (changes + changes_delta)
                  (if todo_index = stopline \<and> todo_index \<noteq> length todo - 1
                   then (butlast todo)[todo_index := last todo]
                   else todo))
      else Inr (cur, changes, todo))"
  by pat_completeness auto
termination
  by (relation "measure (\<lambda>(subn, line, todo_index, cur, changes, todo).
        length todo - todo_index)") auto

declare catch_up_line.simps [simp del]

text \<open>The second loop of \<open>press_mainloop\<close>, from \<open>index\<close> on.\<close>

function catch_up ::
  "subn \<Rightarrow> nat \<Rightarrow> string list \<Rightarrow> nat \<Rightarrow> todo_list
     \<Rightarrow> error + (string list \<times> nat \<times> todo_list)"
where
  "catch_up subn index chunk changes todo =
     (if index < length chunk then
        (case catch_up_line subn (chunk ! index) 0 (chunk ! index) changes todo of
           Inl e \<Rightarrow> Inl e
         | Inr (cur, changes1, todo1) \<Rightarrow>
             catch_up subn (index + 1) (chunk[index := cur]) changes1 todo1)
      else Inr (chunk, changes, todo))"
  by pat_completeness auto
termination
  by (relation "measure (\<lambda>(subn, index, chunk, changes, todo). length chunk - index)") auto

declare catch_up.simps [simp del]

text \<open>\<open>press_mainloop\<close> returns the number of changes; the chunk is changed in place.\<close>

definition press_mainloop ::
  "subn \<Rightarrow> string list \<Rightarrow> RegExCompressor \<Rightarrow> error + (nat \<times> string list \<times> RegExCompressor)"
where
  "press_mainloop subn chunk st =
     (case first_pass subn 0 chunk 0 [] st of
        Inl e \<Rightarrow> Inl e
      | Inr (chunk1, changes1, todo1, st1) \<Rightarrow>
          (case catch_up subn 0 chunk1 changes1 todo1 of
             Inl e \<Rightarrow> Inl e
           | Inr (chunk2, changes2, todo2) \<Rightarrow> Inr (changes2, chunk2, st1)))"

text \<open>
  The loop of \<open>press\<close>: \<open>press_mainloop\<close> is run again while it reports changes. The
  result is \<open>None\<close> if the loop does not end.
\<close>

partial_function (option) press_loop ::
  "subn \<Rightarrow> string list \<Rightarrow> RegExCompressor \<Rightarrow> (error + (string list \<times> RegExCompressor)) option"
where
  "press_loop subn chunk st =
     (case press_mainloop subn chunk st of
        Inl e \<Rightarrow> Some (Inl e)
      | Inr (changes, chunk1, st1) \<Rightarrow>
          (if changes \<noteq> 0 then press_loop subn chunk1 st1 else Some (Inr (chunk1, st1))))"

declare press_loop.simps [code]

definition press ::
  "subn \<Rightarrow> string list \<Rightarrow> RegExCompressor \<Rightarrow> (error + (string list \<times> RegExCompressor)) option"
where
  "press subn chunk st = press_loop subn (encode chunk) st"

text \<open>
  The loop of \<open>compress\<close>. \<open>lines\<close> are the strings that the successive calls of
  \<open>f.readline()\<close> return before the end of the file; the loop ends at an empty one.
  \<open>out\<close> is \<open>self.compressed_output\<close>.
\<close>

fun compress_loop ::
  "subn \<Rightarrow> string list \<Rightarrow> string list \<Rightarrow> nat \<Rightarrow> string list \<Rightarrow> RegExCompressor
     \<Rightarrow> (error + RegExCompressor) option"
where
  "compress_loop subn [] chunk line_counter out st =
     Some (Inr (st\<lparr>compressed_output := Some out\<rparr>))"
| "compress_loop subn (line # lines) chunk line_counter out st =
     (if line \<noteq> [] then
        (if line_counter + 1 \<ge> CHUNK_SIZE then
           (case press subn (chunk @ [line]) st of
              None \<Rightarrow> None
            | Some (Inl e) \<Rightarrow> Some (Inl e)
            | Some (Inr (chunk1, st1)) \<Rightarrow> compress_loop subn lines [] 0 (out @ chunk1) st1)
         else compress_loop subn lines (chunk @ [line]) (line_counter + 1) out st)
      else Some (Inr (st\<lparr>compressed_output := Some out\<rparr>)))"

definition compress ::
  "subn \<Rightarrow> string list \<Rightarrow> RegExCompressor \<Rightarrow> (error + RegExCompressor) option"
where
  "compress subn lines st = compress_loop subn lines [] 0 [] st"

section \<open>Output assembly\<close>

text \<open>The lines that \<open>cat_lines\<close> yields for the elements of \<open>self.compressed_output\<close>.\<close>

fun cat_body :: "subn \<Rightarrow> RegExCompressor \<Rightarrow> string list \<Rightarrow> error + string list" where
  "cat_body subn st [] = Inr []"
| "cat_body subn st (line0 # ls) =
     (let (line, trailer) = split_trailer line0
      in case apply_regexes subn st line of
           Inl e \<Rightarrow> Inl e
         | Inr (line1, _) \<Rightarrow>
             (case cat_body subn st ls of
                Inl e \<Rightarrow> Inl e
              | Inr rest \<Rightarrow> Inr ((rstrip line1 @ trailer) # rest)))"

text \<open>
  All that \<open>cat_lines\<close> yields: the lines, the string with the marker, and the phrases
  of the rules joined by a comma and a space.
\<close>

definition cat_lines :: "subn \<Rightarrow> RegExCompressor \<Rightarrow> error + string list" where
  "cat_lines subn st =
     (case compressed_output st of
        None \<Rightarrow> Inl TypeError
      | Some out \<Rightarrow>
          (case cat_body subn st out of
             Inl e \<Rightarrow> Inl e
           | Inr ls \<Rightarrow>
               Inr (ls @ [[newline] @ ''## EXPRESSIONS ##'' @ [newline],
                          join '', '' (map fst (expressions st))])))"

section \<open>A model of \<open>re.subn\<close> for patterns without operators\<close>

text \<open>
  The characters with a meaning of their own in a pattern, the backslash apart.
\<close>

definition regex_special :: "char \<Rightarrow> bool" where
  "regex_special c \<longleftrightarrow> c \<in> set ''.^$*+?{}[]|()''"

definition ascii_alnum :: "char \<Rightarrow> bool" where
  "ascii_alnum c \<longleftrightarrow> c \<in> set chars"

text \<open>
  The pattern as the string it matches, for a pattern made of ordinary characters and
  of backslashes followed by a character that is neither a letter nor a digit (such a
  pair stands for that character). A backslash that ends the pattern is an error of
  \<open>re.compile\<close> (bad escape, end of pattern). Every other pattern is outside this model.
\<close>

fun compile_literal :: "string \<Rightarrow> error + string" where
  "compile_literal [] = Inr []"
| "compile_literal (c # cs) =
     (if c = backslash then
        (case cs of
           [] \<Rightarrow> Inl RegexError
         | d # ds \<Rightarrow>
             (if ascii_alnum d then Inl Unsupported
              else (case compile_literal ds of
                      Inl e \<Rightarrow> Inl e
                    | Inr p \<Rightarrow> Inr (d # p))))
      else if regex_special c then Inl Unsupported
      else (case compile_literal cs of
              Inl e \<Rightarrow> Inl e
            | Inr p \<Rightarrow> Inr (c # p)))"

text \<open>
  The occurrences of the string \<open>p\<close> in \<open>s\<close> that do not overlap, found from left to
  right, replaced by \<open>r\<close>, and their number.
\<close>

function replace_all :: "string \<Rightarrow> string \<Rightarrow> string \<Rightarrow> string \<times> nat" where
  "replace_all p r [] = ([], 0)"
| "replace_all p r (c # cs) =
     (if p \<noteq> [] \<and> prefix p (c # cs) then
        (let (s', n) = replace_all p r (drop (length p) (c # cs)) in (r @ s', Suc n))
      else (let (s', n) = replace_all p r cs in (c # s', n)))"
  by pat_completeness auto
termination
  by (relation "measure (\<lambda>(p, r, s). length s)") auto

text \<open>
  \<open>re.subn\<close> on that fragment: the replacement is taken as it is when it has no
  backslash, and the empty pattern is left out.
\<close>

definition re_subn :: subn where
  "re_subn pattern repl line =
     (case compile_literal pattern of
        Inl e \<Rightarrow> Inl e
      | Inr p \<Rightarrow>
          (if p = [] \<or> backslash \<in> set repl then Inl Unsupported
           else Inr (replace_all p repl line)))"

section \<open>Notions used in the statements\<close>

text \<open>
  A counter over the alphabet of 62 symbols, as a list of positions in \<open>chars\<close>, the
  least significant digit first: \<open>counter_next\<close> advances the first digit, and on
  wraparound resets it and carries into the next one; a carry past the last digit
  appends a digit at the first symbol.
\<close>

fun counter_next :: "nat list \<Rightarrow> nat list" where
  "counter_next [] = [0]"
| "counter_next (k # ks) = (if Suc k < 62 then Suc k # ks else 0 # counter_next ks)"

definition counter_digits :: "nat list \<Rightarrow> bool" where
  "counter_digits s \<longleftrightarrow> s \<noteq> [] \<and> list_all (\<lambda>k. k < 62) s"

text \<open>The text of a counter with the most significant digit written first.\<close>

definition counter_text :: "nat list \<Rightarrow> string" where
  "counter_text s = ''<'' @ map (\<lambda>k. chars ! k) (rev s) @ ''>''"

text \<open>
  The order in which the allocator keeps the digits of a counter: the least
  significant digit first, then the other digits from the most significant one down.
\<close>

fun carry_order :: "'a list \<Rightarrow> 'a list" where
  "carry_order [] = []"
| "carry_order (k # r) = k # rev r"

text \<open>
  The allocator state whose digits are the symbols at the positions \<open>ks\<close>, every
  generator having yet to yield the symbols after its digit.
\<close>

definition token_abs :: "nat list \<Rightarrow> Token" where
  "token_abs ks =
     \<lparr>generators = map (\<lambda>k. drop (Suc k) chars) ks, digits = map (\<lambda>k. chars ! k) ks\<rparr>"

text \<open>The number a counter stands for, every digit counting from one.\<close>

fun bijective_value :: "nat list \<Rightarrow> nat" where
  "bijective_value [] = 0"
| "bijective_value (k # ks) = Suc k + 62 * bijective_value ks"

text \<open>
  The body of a line: the first component of what \<open>split_trailer\<close> returns.
\<close>

definition body :: "string \<Rightarrow> string" where
  "body line = fst (split_trailer line)"

text \<open>
  The adjacency-graph walk of the bodies \<open>bs\<close>, the first of them being the line at
  \<open>index\<close>: \<open>map_nodes\<close> on each, in order.
\<close>

fun walk_all ::
  "nat \<Rightarrow> string list \<Rightarrow> todo_list \<Rightarrow> RegExCompressor \<Rightarrow> error + (todo_list \<times> RegExCompressor)"
where
  "walk_all index [] todo st = Inr (todo, st)"
| "walk_all index (b # bs) todo st =
     (case map_nodes b index todo st of
        Inl e \<Rightarrow> Inl e
      | Inr (todo1, st1) \<Rightarrow> walk_all (index + 1) bs todo1 st1)"

text \<open>
  The body of the first loop as the specification words it: the graph walk is done on
  the body after the rules were applied to it.
\<close>

definition press_line_spec ::
  "subn \<Rightarrow> nat \<Rightarrow> string \<Rightarrow> todo_list \<Rightarrow> RegExCompressor
     \<Rightarrow> error + (string \<times> nat \<times> todo_list \<times> RegExCompressor)"
where
  "press_line_spec subn index line0 todo st =
     (let (line, trailer) = split_trailer line0
      in case apply_regexes subn st line of
           Inl e \<Rightarrow> Inl e
         | Inr (new, changes_delta) \<Rightarrow>
             (case map_nodes new index todo st of
                Inl e \<Rightarrow> Inl e
              | Inr (todo1, st1) \<Rightarrow> Inr (new, changes_delta, todo1, st1)))"

text \<open>The number of space characters of a line, and of a window.\<close>

definition spaces :: "string \<Rightarrow> nat" where
  "spaces s = length (filter (\<lambda>c. c = CHR '' '') s)"

definition total_spaces :: "string list \<Rightarrow> nat" where
  "total_spaces chunk = sum_list (map spaces chunk)"

definition total_length :: "string list \<Rightarrow> nat" where
  "total_length chunk = sum_list (map length chunk)"

text \<open>
  What the termination of the loop of \<open>press\<close> needs of \<open>re.subn\<close>: for a pattern with a
  space in it and a replacement without one, a call that reports no substitution
  returns the line as it is, and a call that reports one returns a line with fewer
  spaces.
\<close>

definition subn_ok :: "subn \<Rightarrow> bool" where
  "subn_ok subn \<longleftrightarrow>
     (\<forall>p t l l' n. CHR '' '' \<in> set p \<and> CHR '' '' \<notin> set t \<and> subn p t l = Inr (l', n)
        \<longrightarrow> (n = 0 \<longrightarrow> l' = l) \<and> (0 < n \<longrightarrow> spaces l' < spaces l))"

text \<open>
  A rule as \<open>gen_regex\<close> makes them: a space in the pattern, none in the token.
\<close>

definition rule_ok :: "RegExTuple \<Rightarrow> bool" where
  "rule_ok r \<longleftrightarrow> CHR '' '' \<in> set (regex r) \<and> CHR '' '' \<notin> set (token r)"

text \<open>
  The states of the compressor that the algorithm reaches: the keys of the rule table
  are distinct, its rules are as \<open>gen_regex\<close> makes them, and the allocator is a counter.
\<close>

definition comp_inv :: "RegExCompressor \<Rightarrow> bool" where
  "comp_inv st \<longleftrightarrow>
     distinct (map fst (expressions st))
     \<and> list_all rule_ok (map snd (expressions st))
     \<and> (\<exists>s. counter_digits s \<and> self_token st = token_abs (carry_order s))"

text \<open>
  Some rule of the table applies to the body of the line (or applying the rules
  raises).
\<close>

definition hit :: "subn \<Rightarrow> RegExCompressor \<Rightarrow> string \<Rightarrow> bool" where
  "hit subn st line =
     (case apply_regexes subn st (body line) of
        Inl e \<Rightarrow> True
      | Inr (new, changes) \<Rightarrow> 0 < changes)"

text \<open>
  The measure of a window in a state: the number of spaces, the number of characters,
  and whether no rule of the table applies to a line of the window.
\<close>

definition press_measure :: "subn \<Rightarrow> string list \<Rightarrow> RegExCompressor \<Rightarrow> nat \<times> nat \<times> nat" where
  "press_measure subn chunk st =
     (total_spaces chunk, total_length chunk,
      if list_ex (hit subn st) chunk then 0 else 1)"

text \<open>The rules of the catch-up list are rules of the table.\<close>

definition todo_in :: "todo_list \<Rightarrow> RegExCompressor \<Rightarrow> bool" where
  "todo_in todo st \<longleftrightarrow> fst ` set todo \<subseteq> snd ` set (expressions st)"

text \<open>
  A line got from another by deleting or replacing parts of it, that has no more
  spaces and no more characters, and is the same line when it has as many characters.
\<close>

definition shrinks :: "string \<Rightarrow> string \<Rightarrow> bool" where
  "shrinks s' s \<longleftrightarrow>
     spaces s' \<le> spaces s \<and> length s' \<le> length s \<and> (length s' = length s \<longrightarrow> s' = s)"

section \<open>The token allocator\<close>

lemma length_chars: "length chars = 62"
  by (simp add: chars_def)

lemma distinct_chars: "distinct chars"
  by (simp add: chars_def)

lemma gen_next_drop:
  "k < 62 \<Longrightarrow> gen_next (drop (Suc k) chars) =
     (if k < 61 then Some (chars ! Suc k, drop (Suc (Suc k)) chars) else None)"
proof (cases "k < 61")
  case True
  then have "Suc k < length chars" by (simp add: length_chars)
  then have "drop (Suc k) chars = chars ! Suc k # drop (Suc (Suc k)) chars"
    by (simp add: Cons_nth_drop_Suc)
  with True show ?thesis by simp
next
  case False
  assume "k < 62"
  with False have "k = 61" by simp
  then show ?thesis by (simp add: length_chars)
qed

lemma gen_next_get_gen: "gen_next get_gen = Some (chars ! 0, drop (Suc 0) chars)"
  by (simp add: get_gen_def chars_def)

lemma Token_init_abs: "Token_init = token_abs [0]"
  by (simp add: Token_init_def token_abs_def gen_next_get_gen)

lemma carry_order_length [simp]: "length (carry_order s) = length s"
  by (cases s) auto

lemma carry_order_set [simp]: "set (carry_order s) = set s"
  by (cases s) auto

lemma carry_order_update:
  "j < length s \<Longrightarrow>
   carry_order (s[j := v]) = (carry_order s)[(if j = 0 then 0 else length s - j) := v]"
proof (cases s)
  case Nil
  assume "j < length s"
  with Nil show ?thesis by simp
next
  case (Cons k r)
  assume j: "j < length s"
  show ?thesis
  proof (cases j)
    case 0
    with Cons show ?thesis by simp
  next
    case (Suc i)
    with j Cons have i: "i < length r" by simp
    then have "rev (r[i := v]) = (rev r)[length r - i - 1 := v]"
      by (simp add: rev_update)
    moreover from i have "length r - i = Suc (length r - i - 1)" by simp
    ultimately show ?thesis using Cons Suc by simp
  qed
qed

lemma carry_order_nth:
  "j < length s \<Longrightarrow> carry_order s ! (if j = 0 then 0 else length s - j) = s ! j"
proof (cases s)
  case Nil
  assume "j < length s"
  with Nil show ?thesis by simp
next
  case (Cons k r)
  assume j: "j < length s"
  show ?thesis
  proof (cases j)
    case 0
    with Cons show ?thesis by simp
  next
    case (Suc i)
    with j Cons have i: "i < length r" by simp
    then have "rev r ! (length r - i - 1) = r ! i"
      by (simp add: rev_nth)
    moreover from i have "length r - i = Suc (length r - i - 1)" by simp
    ultimately show ?thesis using Cons Suc by simp
  qed
qed

lemma py_index_neg:
  "j < n \<Longrightarrow> py_index n (- int j) = Some (if j = 0 then 0 else n - j)"
  by (auto simp: py_index_def nat_diff_distrib' of_nat_diff)

lemma bijective_value_update:
  "j < length s \<Longrightarrow>
   bijective_value (s[j := v]) + Suc (s ! j) * 62 ^ j = bijective_value s + Suc v * 62 ^ j"
proof (induction s arbitrary: j)
  case Nil
  then show ?case by simp
next
  case (Cons k s)
  show ?case
  proof (cases j)
    case 0
    then show ?thesis by simp
  next
    case (Suc i)
    with Cons.prems have "i < length s" by simp
    from Cons.IH [OF this] Suc show ?thesis
      by (simp add: algebra_simps)
  qed
qed

lemma bijective_value_snoc:
  "bijective_value (s @ [k]) = bijective_value s + Suc k * 62 ^ length s"
  by (induction s) (simp_all add: algebra_simps)


lemma token_abs_sel:
  "generators (token_abs ks) = map (\<lambda>k. drop (Suc k) chars) ks"
  "digits (token_abs ks) = map (\<lambda>k. chars ! k) ks"
  by (simp_all add: token_abs_def)

lemma token_abs_update:
  "token_abs ks\<lparr>generators := (generators (token_abs ks))[p := drop (Suc v) chars],
               digits := (digits (token_abs ks))[p := chars ! v]\<rparr> = token_abs (ks[p := v])"
  by (simp add: token_abs_def map_update)

lemma token_abs_length:
  "length (generators (token_abs ks)) = length ks"
  "length (digits (token_abs ks)) = length ks"
  by (simp_all add: token_abs_def)

lemma token_abs_snoc:
  "token_abs ks\<lparr>generators := generators (token_abs ks) @ [drop (Suc v) chars],
               digits := digits (token_abs ks) @ [chars ! v]\<rparr> = token_abs (ks @ [v])"
  by (simp add: token_abs_def)

lemma all_zero_replicate:
  "\<forall>i<length s. s ! i = (0::nat) \<Longrightarrow> s = replicate (length s) 0"
  by (simp add: list_eq_iff_nth_eq)

lemma carry_order_replicate: "carry_order (replicate n x) = replicate n x"
  by (cases n) simp_all


lemma next_loop_carry:
  "length s = n \<Longrightarrow> j < n \<Longrightarrow> \<forall>k\<in>set s. k < 62 \<Longrightarrow> \<forall>i<j. s ! i = 0 \<Longrightarrow>
   next_loop (token_abs (carry_order s)) (- int j)
     = Inr (token_abs (carry_order (take j s @ counter_next (drop j s))))"
proof (induction "n - j" arbitrary: s j)
  case 0
  then show ?case by simp
next
  case (Suc d)
  define p where "p = (if j = 0 then 0 else n - j)"
  define ks where "ks = carry_order s"
  have len: "length ks = n" using Suc.prems by (simp add: ks_def)
  have p_lt: "p < n" using Suc.prems by (simp add: p_def)
  have idx: "py_index n (- int j) = Some p"
    using Suc.prems by (simp add: py_index_neg p_def)
  have ksp: "ks ! p = s ! j"
    using Suc.prems carry_order_nth [of j s] by (auto simp: ks_def p_def split: if_splits)
  have sj: "s ! j < 62" using Suc.prems by simp
  have upd: "\<And>v. carry_order (s[j := v]) = ks[p := v]"
    using Suc.prems carry_order_update [of j s] by (auto simp: ks_def p_def split: if_splits)
  have lg: "length (generators (token_abs ks)) = n"
    and ld: "length (digits (token_abs ks)) = n"
    using len by (simp_all add: token_abs_length)
  have gen: "generators (token_abs ks) ! p = drop (Suc (s ! j)) chars"
    using p_lt len ksp by (simp add: token_abs_sel)
  have gn: "gen_next (generators (token_abs ks) ! p) =
      (if s ! j < 61 then Some (chars ! Suc (s ! j), drop (Suc (Suc (s ! j))) chars) else None)"
    using gen sj by (simp only: gen_next_drop)
  have drop_j: "drop j s = s ! j # drop (Suc j) s"
    using Suc.prems by (simp add: Cons_nth_drop_Suc)
  show ?case
  proof (cases "s ! j < 61")
    case True
    have "next_loop (token_abs ks) (- int j) = Inr (token_abs (ks[p := Suc (s ! j)]))"
      apply (subst next_loop.simps)
      using Suc.prems(2) idx lg ld gn True
      by (simp add: token_abs_update)
    moreover have "take j s @ counter_next (drop j s) = s[j := Suc (s ! j)]"
      using True Suc.prems drop_j by (simp add: upd_conv_take_nth_drop)
    ultimately show ?thesis
      unfolding ks_def [symmetric] using upd [of "Suc (s ! j)"] by simp
  next
    case False
    with sj have sj61: "s ! j = 61" by simp
    define s1 where "s1 = s[j := 0]"
    have s1: "carry_order s1 = ks[p := 0]" using upd by (simp add: s1_def)
    have s1_lt: "\<forall>k\<in>set s1. k < 62"
      using Suc.prems unfolding s1_def
      by (auto dest!: set_update_subset_insert [THEN subsetD])
    have s1_zero: "\<forall>i<Suc j. s1 ! i = 0"
      using Suc.prems by (auto simp: s1_def nth_list_update)
    have len1: "length s1 = n" using Suc.prems by (simp add: s1_def)
    have res: "take j s @ counter_next (drop j s)
        = take (Suc j) s1 @ counter_next (drop (Suc j) s1)"
      using sj61 Suc.prems drop_j by (simp add: s1_def take_Suc_conv_app_nth)
    have "next_loop (token_abs ks) (- int j) =
        (if Suc j = n
         then Inr (token_abs (ks[p := 0] @ [0]))
         else next_loop (token_abs (ks[p := 0])) (- int j - 1))"
      apply (subst next_loop.simps)
      using Suc.prems(2) idx lg ld gn sj61 len
      by (simp add: gen_next_get_gen token_abs_update token_abs_snoc
          token_abs_length Let_def)
    moreover have "- int j - 1 = - int (Suc j)" by simp
    ultimately have step: "next_loop (token_abs ks) (- int j) =
        (if Suc j = n
         then Inr (token_abs (ks[p := 0] @ [0]))
         else next_loop (token_abs (ks[p := 0])) (- int (Suc j)))"
      by (simp only:)
    show ?thesis
    proof (cases "Suc j = n")
      case True
      with s1_zero len1 have "s1 = replicate n 0"
        using all_zero_replicate [of s1] by simp
      then have "ks[p := 0] @ [0] = carry_order (s1 @ [0])"
        using s1 [symmetric] carry_order_replicate [of "Suc n" "0::nat"]
        by (simp add: carry_order_replicate replicate_append_same)
      moreover have "take (Suc j) s1 @ counter_next (drop (Suc j) s1) = s1 @ [0]"
        using True len1 by simp
      ultimately show ?thesis
        unfolding ks_def [symmetric] using step True res by simp
    next
      case False
      with Suc.prems have j1: "Suc j < n" by simp
      from Suc.hyps(2) have "d = n - Suc j" by simp
      from Suc.hyps(1) [OF this len1 j1 s1_lt s1_zero] step False s1 res
      show ?thesis unfolding ks_def [symmetric] by simp
    qed
  qed
qed

lemma counter_next_bound:
  "\<forall>k\<in>set s. k < 62 \<Longrightarrow> \<forall>k\<in>set (counter_next s). k < 62"
  by (induction s) auto

lemma counter_next_nonempty: "counter_next s \<noteq> []"
  by (cases s) auto

lemma counter_next_digits: "counter_digits s \<Longrightarrow> counter_digits (counter_next s)"
  unfolding counter_digits_def list_all_iff using counter_next_bound counter_next_nonempty by blast

lemma counter_next_value:
  "\<forall>k\<in>set s. k < 62 \<Longrightarrow> bijective_value (counter_next s) = Suc (bijective_value s)"
  by (induction s) auto

lemma counter_funpow_digits: "counter_digits s \<Longrightarrow> counter_digits ((counter_next ^^ n) s)"
  by (induction n) (simp_all add: counter_next_digits)

lemma counter_funpow_value:
  "counter_digits s \<Longrightarrow> bijective_value ((counter_next ^^ n) s) = bijective_value s + n"
proof (induction n)
  case 0
  then show ?case by simp
next
  case (Suc n)
  then have "counter_digits ((counter_next ^^ n) s)" by (simp add: counter_funpow_digits)
  then show ?case using Suc by (simp add: counter_next_value counter_digits_def list_all_iff)
qed

lemma Token_next_abs:
  assumes "counter_digits s"
  shows "Token_next (token_abs (carry_order s))
    = Inr (Token_token (token_abs (carry_order (counter_next s))),
           token_abs (carry_order (counter_next s)))"
proof -
  from assms have "0 < length s" "\<forall>k\<in>set s. k < 62"
    by (simp_all add: counter_digits_def list_all_iff)
  then have "next_loop (token_abs (carry_order s)) (- int 0)
      = Inr (token_abs (carry_order (take 0 s @ counter_next (drop 0 s))))"
    by (intro next_loop_carry [of s "length s" 0]) simp_all
  then show ?thesis by (simp add: Token_next_def)
qed

lemma carry_order_inj: "carry_order s = carry_order s' \<Longrightarrow> s = s'"
  by (cases s; cases s') auto

lemma Token_token_abs:
  "Token_token (token_abs ks) = ''<'' @ map (\<lambda>k. chars ! k) ks @ ''>''"
  by (simp add: Token_token_def token_abs_sel)

lemma Token_token_inj:
  assumes "counter_digits s" "counter_digits s'"
    and "Token_token (token_abs (carry_order s)) = Token_token (token_abs (carry_order s'))"
  shows "s = s'"
proof -
  from assms(3) have eq: "map (\<lambda>k. chars ! k) (carry_order s) = map (\<lambda>k. chars ! k) (carry_order s')"
    by (simp add: Token_token_abs)
  have "inj_on (\<lambda>k. chars ! k) (set (carry_order s) \<union> set (carry_order s'))"
    using assms(1,2) distinct_chars
    by (auto simp: inj_on_def counter_digits_def list_all_iff nth_eq_iff_index_eq length_chars)
  with eq have "carry_order s = carry_order s'"
    by (rule map_inj_on)
  then show ?thesis by (rule carry_order_inj)
qed

lemma Token_take_abs:
  "counter_digits s \<Longrightarrow>
   Token_take n (token_abs (carry_order s)) =
     Inr (map (\<lambda>i. Token_token (token_abs (carry_order ((counter_next ^^ Suc i) s)))) [0..<n],
          token_abs (carry_order ((counter_next ^^ n) s)))"
proof (induction n arbitrary: s)
  case 0
  then show ?case by simp
next
  case (Suc n)
  from Suc.prems have d: "counter_digits (counter_next s)" by (rule counter_next_digits)
  show ?case
    using Suc.IH [OF d] Token_next_abs [OF Suc.prems]
    by (simp add: funpow_swap1 map_upt_Suc del: upt_Suc)
qed

lemma Token_issued_distinct:
  assumes "counter_digits s"
  shows "distinct (map (\<lambda>i. Token_token (token_abs (carry_order ((counter_next ^^ i) s)))) [0..<n])"
proof -
  have "inj_on (\<lambda>i. Token_token (token_abs (carry_order ((counter_next ^^ i) s)))) (set [0..<n])"
  proof (rule inj_onI)
    fix i j
    assume "Token_token (token_abs (carry_order ((counter_next ^^ i) s)))
          = Token_token (token_abs (carry_order ((counter_next ^^ j) s)))"
    then have "(counter_next ^^ i) s = (counter_next ^^ j) s"
      using assms by (intro Token_token_inj counter_funpow_digits)
    then have "bijective_value ((counter_next ^^ i) s) = bijective_value ((counter_next ^^ j) s)"
      by simp
    then show "i = j" using assms by (simp add: counter_funpow_value)
  qed
  then show ?thesis by (simp add: distinct_map)
qed


text \<open>
  C8. A fresh allocator reads \<open><0>\<close>; its first \<open>next\<close> returns \<open><1>\<close>, which it then
  reads; for every \<open>n\<close>, \<open>n\<close> successive calls of \<open>next\<close> succeed and return \<open>n\<close> tokens that
  differ from each other and from the first reading; and the allocator then reads the
  token returned last. Reading does not change the state, so that two readings with no
  \<open>next\<close> between them are readings of the same state.
\<close>

theorem Token_sequence:
  "Token_token Token_init = ''<0>''
   \<and> (\<exists>t. Token_next Token_init = Inr (''<1>'', t) \<and> Token_token t = ''<1>'')
   \<and> (\<forall>n. \<exists>ss t. Token_take n Token_init = Inr (ss, t) \<and> length ss = n
          \<and> distinct (Token_token Token_init # ss)
          \<and> Token_token t = last (Token_token Token_init # ss))"
proof (intro conjI allI)
  show "Token_token Token_init = ''<0>''"
    by (simp add: Token_init_abs Token_token_abs chars_def)
next
  have d: "counter_digits [0]" by (simp add: counter_digits_def)
  have "Token_token (token_abs (carry_order (counter_next [0]))) = ''<1>''"
    by (simp add: Token_token_abs chars_def)
  then show "\<exists>t. Token_next Token_init = Inr (''<1>'', t) \<and> Token_token t = ''<1>''"
    using Token_next_abs [OF d] by (simp add: Token_init_abs)
next
  fix n
  let ?tok = "\<lambda>i. Token_token (token_abs (carry_order ((counter_next ^^ i) [0])))"
  have d: "counter_digits [0]" by (simp add: counter_digits_def)
  have init: "Token_init = token_abs (carry_order [0])" by (simp add: Token_init_abs)
  have take: "Token_take n Token_init
      = Inr (map (\<lambda>i. ?tok (Suc i)) [0..<n], token_abs (carry_order ((counter_next ^^ n) [0])))"
    unfolding init by (rule Token_take_abs [OF d])
  have all: "Token_token Token_init # map (\<lambda>i. ?tok (Suc i)) [0..<n] = map ?tok [0..<Suc n]"
    by (simp add: init map_upt_Suc del: upt_Suc)
  have "distinct (map ?tok [0..<Suc n])"
    by (rule Token_issued_distinct [OF d])
  moreover have "last (map ?tok [0..<Suc n]) = ?tok n"
    by (simp add: last_map)
  ultimately show "\<exists>ss t. Token_take n Token_init = Inr (ss, t) \<and> length ss = n
      \<and> distinct (Token_token Token_init # ss)
      \<and> Token_token t = last (Token_token Token_init # ss)"
    using take all by (intro exI [of _ "map (\<lambda>i. ?tok (Suc i)) [0..<n]"] exI) auto
qed

theorem Token_sequence_witness:
  "\<exists>ss t. Token_take 100001 Token_init = Inr (ss, t) \<and> length ss = 100001
     \<and> distinct (Token_token Token_init # ss)"
  using Token_sequence by blast

text \<open>
  C7, as it is stated, fails: were the text of a token its digits with the most
  significant one first, the 63rd token would read \<open><01>\<close>. The allocator returns
  \<open><10>\<close>: the digit that \<open>next\<close> advances is the first one of the text.
\<close>

theorem Token_text_counterexample:
  "map_sum id (\<lambda>r. Token_token (snd r)) (Token_take 63 Token_init) = Inr ''<10>''
   \<and> counter_text ((counter_next ^^ 63) [0]) = ''<01>''"
  by code_simp

text \<open>
  C7, amended. \<open>next\<close> increments a counter over the alphabet of 62 symbols: it
  advances the least significant digit, on wraparound resets it and carries into the
  next more significant digit, and appends a digit when the carry passes the most
  significant one. The allocator keeps and writes the digits in the order
  \<open>carry_order\<close>: the least significant digit first, then the other digits from the
  most significant one down; the text of a token is that sequence between angle
  brackets. A fresh allocator is the counter with the one digit 0.
\<close>

theorem Token_next_counter:
  assumes "counter_digits s"
  shows "Token_next (token_abs (carry_order s))
           = Inr (Token_token (token_abs (carry_order (counter_next s))),
                  token_abs (carry_order (counter_next s)))
         \<and> Token_token (token_abs (carry_order s))
             = ''<'' @ map (\<lambda>k. chars ! k) (carry_order s) @ ''>''
         \<and> counter_digits (counter_next s)
         \<and> Token_init = token_abs (carry_order [0])"
  using assms
  by (simp add: Token_next_abs Token_token_abs counter_next_digits Token_init_abs)

theorem Token_next_counter_witness:
  "counter_digits [61, 61, 3]
   \<and> Token_next (token_abs (carry_order [61, 61, 3]))
       = Inr (''<040>'', token_abs (carry_order [0, 0, 4]))
   \<and> Token_token (token_abs (carry_order [61, 61, 3])) = ''<Z3Z>''"
proof -
  have d: "counter_digits [61, 61, 3]" by (simp add: counter_digits_def)
  have "Token_token (token_abs (carry_order [0, 0, 4])) = ''<040>''"
    by (simp add: Token_token_abs chars_def)
  moreover have "''<'' @ map (\<lambda>k. chars ! k) (carry_order [61, 61, 3]) @ ''>'' = ''<Z3Z>''"
    by (simp add: chars_def)
  ultimately show ?thesis
    using d Token_next_counter [OF d] by simp
qed

section \<open>The rule table along the algorithm\<close>

lemma update_absent: "map_of al k = None \<Longrightarrow> AList.update k v al = al @ [(k, v)]"
  by (induction al) (auto split: if_splits)

lemma gen_regex_cases:
  assumes "gen_regex node1 node2 st = Inr (new_reg, st')"
  obtains (old) "new_reg = None" "st' = st"
      "map_of (expressions st) (node1 @ '' '' @ node2) \<noteq> None"
    | (new) tok t' where "Token_next (self_token st) = Inr (tok, t')"
      "map_of (expressions st) (node1 @ '' '' @ node2) = None"
      "new_reg = Some \<lparr>replaces = node1 @ '' '' @ node2, regex = node1 @ '' '' @ node2,
                       token = tok\<rparr>"
      "st' = st\<lparr>self_token := t',
                expressions := expressions st @ [(node1 @ '' '' @ node2,
                   \<lparr>replaces = node1 @ '' '' @ node2, regex = node1 @ '' '' @ node2,
                    token = tok\<rparr>)]\<rparr>"
  using assms
  by (auto simp: gen_regex_def Let_def update_absent split: if_splits sum.splits)

lemma gen_regex_prefix:
  "gen_regex node1 node2 st = Inr (new_reg, st') \<Longrightarrow> prefix (expressions st) (expressions st')"
  by (erule gen_regex_cases) auto

lemma gen_regex_distinct:
  "gen_regex node1 node2 st = Inr (new_reg, st') \<Longrightarrow> distinct (map fst (expressions st))
    \<Longrightarrow> distinct (map fst (expressions st'))"
  by (erule gen_regex_cases) (auto simp: map_of_eq_None_iff)

lemma gen_regex_new_in_table:
  "gen_regex node1 node2 st = Inr (Some r, st') \<Longrightarrow> r \<in> snd ` set (expressions st')"
  by (erule gen_regex_cases) (auto simp: image_iff)

lemma chars_no_space: "k < 62 \<Longrightarrow> chars ! k \<noteq> CHR '' ''"
proof -
  assume "k < 62"
  then have "chars ! k \<in> set chars" by (simp add: length_chars)
  moreover have "CHR '' '' \<notin> set chars" by (simp add: chars_def)
  ultimately show ?thesis by metis
qed

lemma Token_token_no_space:
  "counter_digits s \<Longrightarrow> CHR '' '' \<notin> set (Token_token (token_abs (carry_order s)))"
  using chars_no_space
  by (fastforce simp: Token_token_abs counter_digits_def list_all_iff)

lemma gen_regex_inv:
  assumes "gen_regex node1 node2 st = Inr (new_reg, st')" and "comp_inv st"
  shows "comp_inv st'"
  using assms(1)
proof (cases rule: gen_regex_cases)
  case old
  with assms(2) show ?thesis by simp
next
  case (new tok t')
  from assms(2) obtain s where s: "counter_digits s" "self_token st = token_abs (carry_order s)"
    by (auto simp: comp_inv_def)
  from new(1) s have tok: "tok = Token_token (token_abs (carry_order (counter_next s)))"
    and t': "t' = token_abs (carry_order (counter_next s))"
    by (auto simp: Token_next_abs)
  have "counter_digits (counter_next s)" using s(1) by (rule counter_next_digits)
  then have "CHR '' '' \<notin> set tok" unfolding tok by (rule Token_token_no_space)
  then have "rule_ok \<lparr>replaces = node1 @ '' '' @ node2, regex = node1 @ '' '' @ node2,
      token = tok\<rparr>"
    by (simp add: rule_ok_def)
  moreover have "\<exists>s'. counter_digits s' \<and> t' = token_abs (carry_order s')"
    using t' \<open>counter_digits (counter_next s)\<close> by blast
  ultimately show ?thesis
    using assms(2) new(2,4) by (auto simp: comp_inv_def map_of_eq_None_iff)
qed

lemma comp_inv_phrases [simp]: "comp_inv (st\<lparr>phrases := ph\<rparr>) = comp_inv st"
  by (simp add: comp_inv_def)

lemma map_nodes_loop_Cons_cases:
  assumes "map_nodes_loop (word # ws) lastnode index todo st = Inr (todo', st')"
  obtains (skip) "word = []" "map_nodes_loop ws lastnode index todo st = Inr (todo', st')"
    | (plain) ph1 where
        "map_nodes_loop ws (Some word) index todo (st\<lparr>phrases := ph1\<rparr>) = Inr (todo', st')"
    | (old) ph1 self st2 where
        "gen_regex self word (st\<lparr>phrases := ph1\<rparr>) = Inr (None, st2)"
        "map_nodes_loop ws (Some word) index todo st2 = Inr (todo', st')"
    | (new) ph1 self r st2 where
        "gen_regex self word (st\<lparr>phrases := ph1\<rparr>) = Inr (Some r, st2)"
        "map_nodes_loop ws (Some word) index (todo @ [(r, index)]) st2 = Inr (todo', st')"
  using assms
  by (auto simp: Let_def split: if_splits sum.splits option.splits)

lemma map_nodes_loop_rel:
  assumes refl: "\<And>s. R s s" and trans: "\<And>a b c. R a b \<Longrightarrow> R b c \<Longrightarrow> R a c"
    and ph: "\<And>s ph. R s (s\<lparr>phrases := ph\<rparr>)"
    and gen: "\<And>a b s r s'. gen_regex a b s = Inr (r, s') \<Longrightarrow> R s s'"
  shows "map_nodes_loop ws lastnode index todo st = Inr (todo', st') \<Longrightarrow> R st st'"
proof (induction ws arbitrary: lastnode todo st)
  case Nil
  then show ?case by (simp add: refl)
next
  case (Cons word ws)
  from Cons.prems show ?case
  proof (cases rule: map_nodes_loop_Cons_cases)
    case skip
    then show ?thesis by (intro Cons.IH)
  next
    case (plain ph1)
    from Cons.IH [OF this] ph [of st ph1] show ?thesis by (rule trans [rotated])
  next
    case (old ph1 self st2)
    from gen [OF old(1)] ph [of st ph1] have "R st st2" by (rule trans [rotated])
    with Cons.IH [OF old(2)] show ?thesis by (rule trans [rotated])
  next
    case (new ph1 self r st2)
    from gen [OF new(1)] ph [of st ph1] have "R st st2" by (rule trans [rotated])
    with Cons.IH [OF new(2)] show ?thesis by (rule trans [rotated])
  qed
qed

lemma map_nodes_loop_prefix:
  "map_nodes_loop ws lastnode index todo st = Inr (todo', st')
     \<Longrightarrow> prefix (expressions st) (expressions st')"
  by (rule map_nodes_loop_rel [where R = "\<lambda>s s'. prefix (expressions s) (expressions s')"])
     (auto dest: gen_regex_prefix)

lemma map_nodes_loop_distinct:
  "map_nodes_loop ws lastnode index todo st = Inr (todo', st')
     \<Longrightarrow> distinct (map fst (expressions st)) \<longrightarrow> distinct (map fst (expressions st'))"
  by (rule map_nodes_loop_rel [where R = "\<lambda>s s'. distinct (map fst (expressions s))
        \<longrightarrow> distinct (map fst (expressions s'))"])
     (auto dest: gen_regex_distinct)

lemma map_nodes_loop_inv:
  "map_nodes_loop ws lastnode index todo st = Inr (todo', st')
     \<Longrightarrow> comp_inv st \<longrightarrow> comp_inv st'"
  by (rule map_nodes_loop_rel [where R = "\<lambda>s s'. comp_inv s \<longrightarrow> comp_inv s'"])
     (auto dest: gen_regex_inv)


lemma todo_in_prefix:
  assumes "todo_in todo st" and "prefix (expressions st) (expressions st')"
  shows "todo_in todo st'"
proof -
  from assms(2) have "set (expressions st) \<subseteq> set (expressions st')"
    by (rule set_mono_prefix)
  then have "snd ` set (expressions st) \<subseteq> snd ` set (expressions st')"
    by (rule image_mono)
  with assms(1) show ?thesis unfolding todo_in_def by (rule subset_trans)
qed

lemma map_nodes_loop_todo:
  "map_nodes_loop ws lastnode index todo st = Inr (todo', st') \<Longrightarrow> todo_in todo st
     \<Longrightarrow> todo_in todo' st'"
proof (induction ws arbitrary: lastnode todo st)
  case Nil
  then show ?case by simp
next
  case (Cons word ws)
  from Cons.prems(1) show ?case
  proof (cases rule: map_nodes_loop_Cons_cases)
    case skip
    then show ?thesis using Cons.prems(2) by (intro Cons.IH)
  next
    case (plain ph1)
    have "todo_in todo (st\<lparr>phrases := ph1\<rparr>)" using Cons.prems(2) by (simp add: todo_in_def)
    with plain show ?thesis by (intro Cons.IH)
  next
    case (old ph1 self st2)
    have "todo_in todo (st\<lparr>phrases := ph1\<rparr>)" using Cons.prems(2) by (simp add: todo_in_def)
    then have "todo_in todo st2"
      using gen_regex_prefix [OF old(1)] by (rule todo_in_prefix)
    with old(2) show ?thesis by (intro Cons.IH)
  next
    case (new ph1 self r st2)
    have "todo_in todo (st\<lparr>phrases := ph1\<rparr>)" using Cons.prems(2) by (simp add: todo_in_def)
    then have "todo_in todo st2"
      using gen_regex_prefix [OF new(1)] by (rule todo_in_prefix)
    then have "todo_in (todo @ [(r, index)]) st2"
      using gen_regex_new_in_table [OF new(1)] by (simp add: todo_in_def)
    with new(2) show ?thesis by (intro Cons.IH)
  qed
qed


section \<open>Splitting the trailer never adds a space or a character\<close>

lemma spaces_simps [simp]:
  "spaces [] = 0"
  "spaces (c # s) = (if c = CHR '' '' then Suc (spaces s) else spaces s)"
  "spaces (a @ b) = spaces a + spaces b"
  by (simp_all add: spaces_def)

lemma shrinks_refl: "shrinks s s"
  by (simp add: shrinks_def)

lemma shrinks_trans: "shrinks a b \<Longrightarrow> shrinks b c \<Longrightarrow> shrinks a c"
  by (auto simp: shrinks_def)

lemma shrinks_Cons: "shrinks a b \<Longrightarrow> shrinks (c # a) (c # b)"
  by (auto simp: shrinks_def)

lemma shrinks_prefix: "shrinks a (a @ w)"
  by (auto simp: shrinks_def)

lemma shrinks_strict: "spaces a \<le> spaces b \<Longrightarrow> length a < length b \<Longrightarrow> shrinks a b"
  by (auto simp: shrinks_def)

lemma find_close_decomp: "find_close s = Some (t, rest) \<Longrightarrow> s = t @ delim @ rest"
proof (induction s arbitrary: t)
  case Nil
  then show ?case by simp
next
  case (Cons c cs)
  show ?case
  proof (cases "prefix delim (c # cs)")
    case True
    with Cons.prems have "t = []" "rest = drop (length delim) (c # cs)" by simp_all
    moreover from True have "c # cs = delim @ drop (length delim) (c # cs)"
      by (metis append_eq_conv_conj prefix_def)
    ultimately show ?thesis by simp
  next
    case False
    with Cons.prems obtain t' where "find_close cs = Some (t', rest)" "t = c # t'"
      by (auto split: if_splits option.splits)
    with Cons.IH show ?thesis by simp
  qed
qed

lemma sub_wrapped_shrinks: "shrinks (sub_wrapped s) s"
proof (induction s rule: sub_wrapped.induct)
  case 1
  then show ?case by (simp add: shrinks_refl)
next
  case (2 c cs)
  show ?case
  proof (cases "prefix delim (c # cs)")
    case False
    with 2 show ?thesis by (simp add: shrinks_Cons)
  next
    case True
    show ?thesis
    proof (cases "find_close (drop (length delim) (c # cs))")
      case None
      with True 2 show ?thesis by (simp add: shrinks_Cons)
    next
      case (Some p)
      obtain t rest where p: "p = (t, rest)" by (cases p)
      from Some p have d: "drop (length delim) (c # cs) = t @ delim @ rest"
        by (simp add: find_close_decomp)
      from True have "c # cs = delim @ drop (length delim) (c # cs)"
        by (metis append_eq_conv_conj prefix_def)
      with d have s: "c # cs = delim @ t @ delim @ rest" by simp
      have ih: "shrinks (sub_wrapped rest) rest"
        using "2.IH" True Some p by auto
      have "spaces (CHR ''#'' # sub_wrapped rest) \<le> spaces (delim @ t @ delim @ rest)"
        using ih by (simp add: shrinks_def)
      moreover have "length (CHR ''#'' # sub_wrapped rest) < length (delim @ t @ delim @ rest)"
        using ih by (simp add: shrinks_def delim_def)
      ultimately have "shrinks (CHR ''#'' # sub_wrapped rest) (delim @ t @ delim @ rest)"
        by (rule shrinks_strict)
      moreover have "sub_wrapped (c # cs) = CHR ''#'' # sub_wrapped rest"
        using True Some p by simp
      ultimately show ?thesis using s by simp
    qed
  qed
qed

lemma trailer_body_decomp:
  assumes "trailer_body r = Some (g, a)"
  shows "r = g @ ''}'' @ a"
proof (cases "r \<noteq> [] \<and> last r = CHR ''}'' \<and> newline \<notin> set (butlast r)")
  case True
  with assms have "g = butlast r" "a = []" by (simp_all add: trailer_body_def)
  moreover from True have "r \<noteq> []" by simp
  then have "butlast r @ [last r] = r" by (rule append_butlast_last_id)
  ultimately show ?thesis using True by (metis append_Nil2)
next
  case False
  with assms have c: "2 \<le> length r" "last r = newline" "last (butlast r) = CHR ''}''"
    and ga: "g = butlast (butlast r)" "a = [newline]"
    by (simp_all add: trailer_body_def split: if_splits)
  from c(1) have ne: "r \<noteq> []" and ne': "butlast r \<noteq> []"
    by (auto simp: length_greater_0_conv[symmetric] simp del: length_greater_0_conv)
  have "butlast r @ [last r] = r"
    using ne by (rule append_butlast_last_id)
  moreover have "butlast (butlast r) @ [last (butlast r)] = butlast r"
    using ne' by (rule append_butlast_last_id)
  ultimately have "butlast r @ [last r] = r"
      "butlast (butlast r) @ [last (butlast r)] = butlast r"
    by blast+
  then have "r = butlast (butlast r) @ [last (butlast r)] @ [last r]"
    by (metis append_assoc)
  with c ga show ?thesis by simp
qed

lemma search_trailer_decomp:
  "search_trailer s = Some (b, g, a) \<Longrightarrow> s = b @ '' {'' @ g @ ''}'' @ a"
proof (induction s arbitrary: b)
  case Nil
  then show ?case by simp
next
  case (Cons c cs)
  show ?case
  proof (cases "if prefix '' {'' (c # cs) then trailer_body (drop 2 (c # cs)) else None")
    case None
    with Cons.prems obtain b' where "search_trailer cs = Some (b', g, a)" "b = c # b'"
      by (auto split: option.splits)
    with Cons.IH show ?thesis by simp
  next
    case (Some p)
    then have pre: "prefix '' {'' (c # cs)" and tb: "trailer_body (drop 2 (c # cs)) = Some p"
      by (simp_all split: if_splits)
    from Cons.prems Some have "b = []" "p = (g, a)"
      by (auto split: prod.splits)
    moreover from pre have "c # cs = '' {'' @ drop 2 (c # cs)"
      by (auto simp: prefix_def)
    ultimately show ?thesis using trailer_body_decomp [of "drop 2 (c # cs)" g a] tb by simp
  qed
qed

lemma rstrip_prefix: "\<exists>w. s = rstrip s @ w"
proof -
  have "rev s = takeWhile isspace (rev s) @ dropWhile isspace (rev s)" by simp
  then have "s = rev (dropWhile isspace (rev s)) @ rev (takeWhile isspace (rev s))"
    by (metis rev_append rev_rev_ident)
  then show ?thesis unfolding rstrip_def by blast
qed

lemma rstrip_shrinks: "shrinks (rstrip s) s"
  using rstrip_prefix [of s] shrinks_prefix by metis

lemma clean_encoding_shrinks: "shrinks (clean_encoding s) s"
proof (cases "s = []")
  case True
  then show ?thesis by (simp add: clean_encoding_def shrinks_refl)
next
  case False
  define line1 where "line1 = sub_wrapped s"
  have 1: "shrinks line1 s" unfolding line1_def by (rule sub_wrapped_shrinks)
  define line2 where "line2 = (case search_trailer line1 of None \<Rightarrow> line1
      | Some (before, g, after) \<Rightarrow> before @ after)"
  have 2: "shrinks line2 line1"
  proof (cases "search_trailer line1")
    case None
    then show ?thesis by (simp add: line2_def shrinks_refl)
  next
    case (Some p)
    obtain b g a where p: "p = (b, g, a)" by (cases p)
    with Some have "line1 = b @ '' {'' @ g @ ''}'' @ a"
      using search_trailer_decomp [of line1 b g a] by simp
    moreover have "line2 = b @ a" using Some p by (simp add: line2_def)
    ultimately show ?thesis by (simp add: shrinks_def)
  qed
  have "clean_encoding s = line2"
    using False unfolding clean_encoding_def line1_def line2_def Let_def by auto
  with 1 2 show ?thesis by (metis shrinks_trans)
qed

lemma body_shrinks: "shrinks (body s) s"
proof -
  have "body s = rstrip (clean_encoding s)"
    by (simp add: body_def split_trailer_def Let_def)
  then show ?thesis
    using rstrip_shrinks [of "clean_encoding s"] clean_encoding_shrinks [of s]
    by (metis shrinks_trans)
qed

section \<open>Applying the rules\<close>

lemma apply_one_ok:
  assumes "subn_ok subn" "rule_ok r" "apply_one subn l r = Inr (l', n)"
  shows "(n = 0 \<longrightarrow> l' = l) \<and> (0 < n \<longrightarrow> spaces l' < spaces l)"
  using assms unfolding subn_ok_def rule_ok_def apply_one_def by blast

lemma apply_rules_append:
  "apply_rules subn (rs @ rs') l c =
     (case apply_rules subn rs l c of
        Inl e \<Rightarrow> Inl e
      | Inr (l1, c1) \<Rightarrow> apply_rules subn rs' l1 c1)"
  by (induction rs arbitrary: l c) (auto split: sum.splits)

lemma apply_rules_count: "apply_rules subn rs l c = Inr (l', c') \<Longrightarrow> c \<le> c'"
proof (induction rs arbitrary: l c)
  case Nil
  then show ?case by simp
next
  case (Cons r rs)
  from Cons.prems obtain l1 d where "apply_one subn l r = Inr (l1, d)"
      "apply_rules subn rs l1 (c + d) = Inr (l', c')"
    by (auto split: sum.splits)
  with Cons.IH [of l1 "c + d"] show ?case by simp
qed

lemma apply_rules_ok:
  assumes "subn_ok subn"
  shows "list_all rule_ok rs \<Longrightarrow> apply_rules subn rs l c = Inr (l', c') \<Longrightarrow>
    spaces l' \<le> spaces l \<and> (c < c' \<longrightarrow> spaces l' < spaces l) \<and> (c' = c \<longrightarrow> l' = l)"
proof (induction rs arbitrary: l c)
  case Nil
  then show ?case by simp
next
  case (Cons r rs)
  from Cons.prems(2) obtain l1 d where one: "apply_one subn l r = Inr (l1, d)"
      and rest: "apply_rules subn rs l1 (c + d) = Inr (l', c')"
    by (auto split: sum.splits)
  from Cons.prems(1) have ok: "rule_ok r" "list_all rule_ok rs" by simp_all
  from apply_one_ok [OF assms ok(1) one]
  have 1: "d = 0 \<longrightarrow> l1 = l" "0 < d \<longrightarrow> spaces l1 < spaces l" by simp_all
  from Cons.IH [OF ok(2) rest]
  have 2: "spaces l' \<le> spaces l1" "c + d < c' \<longrightarrow> spaces l' < spaces l1"
      "c' = c + d \<longrightarrow> l' = l1" by simp_all
  from apply_rules_count [OF rest] have 3: "c + d \<le> c'" .
  show ?case
  proof (cases "d = 0")
    case True
    with 1 2 show ?thesis by simp
  next
    case False
    with 1 2 3 show ?thesis by auto
  qed
qed

lemma apply_rules_hit:
  assumes "subn_ok subn"
  shows "list_all rule_ok rs \<Longrightarrow> r \<in> set rs \<Longrightarrow> apply_one subn l r = Inr (l1, n) \<Longrightarrow> 0 < n
    \<Longrightarrow> apply_rules subn rs l c = Inr (l', c') \<Longrightarrow> c < c'"
proof (induction rs arbitrary: c)
  case Nil
  then show ?case by simp
next
  case (Cons r0 rs)
  from Cons.prems(5) obtain l2 d where one: "apply_one subn l r0 = Inr (l2, d)"
      and rest: "apply_rules subn rs l2 (c + d) = Inr (l', c')"
    by (auto split: sum.splits)
  from Cons.prems(1) have ok: "rule_ok r0" "list_all rule_ok rs" by simp_all
  from apply_rules_count [OF rest] have le: "c + d \<le> c'" .
  show ?case
  proof (cases "d = 0")
    case False
    with le show ?thesis by simp
  next
    case True
    with apply_one_ok [OF assms ok(1) one] have l2: "l2 = l" by simp
    from True one Cons.prems(3,4) have "r \<noteq> r0" by auto
    with Cons.prems(2) have "r \<in> set rs" by simp
    from Cons.IH [OF ok(2) this Cons.prems(3,4) rest [unfolded l2]] True show ?thesis by simp
  qed
qed

lemma hit_mono:
  assumes "hit subn st line" and "prefix (expressions st) (expressions st')"
  shows "hit subn st' line"
proof -
  from assms(2) obtain zs where zs: "expressions st' = expressions st @ zs"
    by (auto simp: prefix_def)
  show ?thesis
  proof (cases "apply_rules subn (map snd (expressions st)) (body line) 0")
    case (Inl e)
    then show ?thesis by (simp add: hit_def apply_regexes_def zs apply_rules_append)
  next
    case (Inr p)
    obtain l1 c1 where p: "p = (l1, c1)" by (cases p)
    with Inr assms(1) have "0 < c1" by (simp add: hit_def apply_regexes_def)
    show ?thesis
    proof (cases "apply_rules subn (map snd zs) l1 c1")
      case Inl
      with Inr p show ?thesis by (simp add: hit_def apply_regexes_def zs apply_rules_append)
    next
      case Inr2: (Inr q)
      obtain l2 c2 where q: "q = (l2, c2)" by (cases q)
      with Inr2 have "c1 \<le> c2" by (simp add: apply_rules_count)
      with \<open>0 < c1\<close> Inr p Inr2 q show ?thesis
        by (simp add: hit_def apply_regexes_def zs apply_rules_append)
    qed
  qed
qed

lemma comp_inv_rules: "comp_inv st \<Longrightarrow> list_all rule_ok (map snd (expressions st))"
  by (simp add: comp_inv_def)

lemma apply_regexes_ok:
  assumes "subn_ok subn" "comp_inv st" "apply_regexes subn st l = Inr (l', c')"
  shows "spaces l' \<le> spaces l \<and> (0 < c' \<longrightarrow> spaces l' < spaces l) \<and> (c' = 0 \<longrightarrow> l' = l)"
  using apply_rules_ok [OF assms(1) comp_inv_rules [OF assms(2)], of l 0 l' c'] assms(3)
  by (simp add: apply_regexes_def)

section \<open>The first loop of a pass\<close>

lemma map_nodes_facts:
  assumes "map_nodes line index todo st = Inr (todo', st')"
  shows "prefix (expressions st) (expressions st')"
    and "comp_inv st \<Longrightarrow> comp_inv st'"
    and "todo_in todo st \<Longrightarrow> todo_in todo' st'"
    and "distinct (map fst (expressions st)) \<Longrightarrow> distinct (map fst (expressions st'))"
proof -
  from assms have l: "map_nodes_loop (py_split line) None index todo st = Inr (todo', st')"
    by (simp add: map_nodes_def)
  show "prefix (expressions st) (expressions st')"
    using l by (rule map_nodes_loop_prefix)
  show "comp_inv st \<Longrightarrow> comp_inv st'"
    using map_nodes_loop_inv [OF l] by simp
  show "todo_in todo st \<Longrightarrow> todo_in todo' st'"
    using l by (rule map_nodes_loop_todo)
  show "distinct (map fst (expressions st)) \<Longrightarrow> distinct (map fst (expressions st'))"
    using map_nodes_loop_distinct [OF l] by simp
qed

lemma press_line_cases:
  assumes "press_line subn index line0 todo st = Inr (new, cd, todo', st')"
  shows "apply_regexes subn st (body line0) = Inr (new, cd)"
    and "map_nodes (body line0) index todo st = Inr (todo', st')"
  using assms
  by (auto simp: press_line_def body_def split: prod.splits sum.splits)

lemma press_line_facts:
  assumes "press_line subn index line0 todo st = Inr (new, cd, todo', st')"
    and "subn_ok subn" "comp_inv st" "todo_in todo st"
  shows "comp_inv st'" "prefix (expressions st) (expressions st')" "todo_in todo' st'"
    and "0 < cd \<longrightarrow> spaces new < spaces line0"
    and "cd = 0 \<longrightarrow> new = body line0"
    and "hit subn st line0 \<longrightarrow> 0 < cd"
proof -
  note c = press_line_cases [OF assms(1)]
  from map_nodes_facts [OF c(2)] assms(3,4)
  show "comp_inv st'" "prefix (expressions st) (expressions st')" "todo_in todo' st'"
    by blast+
  from apply_regexes_ok [OF assms(2,3) c(1)] body_shrinks [of line0]
  show "0 < cd \<longrightarrow> spaces new < spaces line0" "cd = 0 \<longrightarrow> new = body line0"
    by (auto simp: shrinks_def)
  show "hit subn st line0 \<longrightarrow> 0 < cd"
    using c(1) by (simp add: hit_def)
qed

lemma first_pass_facts:
  assumes "subn_ok subn"
  shows "first_pass subn i chunk changes todo st = Inr (chunk', changes', todo', st')
    \<Longrightarrow> comp_inv st \<Longrightarrow> todo_in todo st \<Longrightarrow>
    comp_inv st' \<and> prefix (expressions st) (expressions st') \<and> todo_in todo' st'
    \<and> length chunk' = length chunk \<and> changes \<le> changes'
    \<and> (\<forall>j<length chunk. j < i \<longrightarrow> chunk' ! j = chunk ! j)
    \<and> (\<forall>j<length chunk. i \<le> j \<longrightarrow>
          spaces (chunk' ! j) < spaces (chunk ! j) \<or> chunk' ! j = body (chunk ! j))
    \<and> (changes < changes' \<longrightarrow>
          (\<exists>j<length chunk. i \<le> j \<and> spaces (chunk' ! j) < spaces (chunk ! j)))
    \<and> (\<forall>j<length chunk. i \<le> j \<and> hit subn st (chunk ! j)
          \<longrightarrow> spaces (chunk' ! j) < spaces (chunk ! j))"
proof (induction "length chunk - i" arbitrary: i chunk changes todo st)
  case 0
  then have "\<not> i < length chunk" by simp
  with "0.prems"(1) have "chunk' = chunk" "changes' = changes" "todo' = todo" "st' = st"
    by (simp_all add: first_pass.simps)
  with \<open>\<not> i < length chunk\<close> "0.prems" show ?case by auto
next
  case (Suc d)
  then have i: "i < length chunk" by simp
  from Suc.prems(1) i obtain new cd todo1 st1 where
    pl: "press_line subn i (chunk ! i) todo st = Inr (new, cd, todo1, st1)"
    and rec: "first_pass subn (i + 1) (chunk[i := new]) (changes + cd) todo1 st1
        = Inr (chunk', changes', todo', st')"
    by (subst (asm) first_pass.simps) (auto split: sum.splits)
  note f = press_line_facts [OF pl assms Suc.prems(2,3)]
  have d: "d = length (chunk[i := new]) - (i + 1)" using Suc.hyps(2) by simp
  note ih0 = Suc.hyps(1) [OF d rec f(1) f(3), unfolded length_list_update]
  from ih0
  have ih: "comp_inv st'" "prefix (expressions st1) (expressions st')" "todo_in todo' st'"
    "length chunk' = length chunk" "changes + cd \<le> changes'"
    "\<forall>j<length chunk. j < i + 1 \<longrightarrow> chunk' ! j = chunk[i := new] ! j"
    "\<forall>j<length chunk. i + 1 \<le> j \<longrightarrow>
        spaces (chunk' ! j) < spaces (chunk[i := new] ! j)
        \<or> chunk' ! j = body (chunk[i := new] ! j)"
    "changes + cd < changes' \<longrightarrow>
        (\<exists>j<length chunk. i + 1 \<le> j \<and> spaces (chunk' ! j) < spaces (chunk[i := new] ! j))"
    "\<forall>j<length chunk. i + 1 \<le> j \<and> hit subn st1 (chunk[i := new] ! j)
        \<longrightarrow> spaces (chunk' ! j) < spaces (chunk[i := new] ! j)"
    by blast+
  have at_i: "chunk' ! i = new" using ih(6) i by simp
  have other: "\<And>j. j \<noteq> i \<Longrightarrow> chunk[i := new] ! j = chunk ! j" by simp
  have 1: "prefix (expressions st) (expressions st')"
    using f(2) ih(2) by (rule prefix_order.trans)
  have 2: "\<forall>j<length chunk. j < i \<longrightarrow> chunk' ! j = chunk ! j"
    using ih(6) by auto
  have 3: "\<forall>j<length chunk. i \<le> j \<longrightarrow>
      spaces (chunk' ! j) < spaces (chunk ! j) \<or> chunk' ! j = body (chunk ! j)"
  proof (intro allI impI)
    fix j assume j: "j < length chunk" "i \<le> j"
    show "spaces (chunk' ! j) < spaces (chunk ! j) \<or> chunk' ! j = body (chunk ! j)"
    proof (cases "j = i")
      case True
      with at_i f(4,5) show ?thesis by (cases "cd = 0") auto
    next
      case False
      with j ih(7) other [of j] show ?thesis by auto
    qed
  qed
  have 4: "changes < changes' \<longrightarrow>
      (\<exists>j<length chunk. i \<le> j \<and> spaces (chunk' ! j) < spaces (chunk ! j))"
  proof
    assume lt: "changes < changes'"
    show "\<exists>j<length chunk. i \<le> j \<and> spaces (chunk' ! j) < spaces (chunk ! j)"
    proof (cases "cd = 0")
      case False
      with f(4) at_i i show ?thesis by auto
    next
      case True
      with lt ih(8) obtain j where "j < length chunk" "i + 1 \<le> j"
          "spaces (chunk' ! j) < spaces (chunk[i := new] ! j)" by auto
      with other [of j] show ?thesis by (intro exI [of _ j]) auto
    qed
  qed
  have 5: "\<forall>j<length chunk. i \<le> j \<and> hit subn st (chunk ! j)
      \<longrightarrow> spaces (chunk' ! j) < spaces (chunk ! j)"
  proof (intro allI impI)
    fix j assume j: "j < length chunk" "i \<le> j \<and> hit subn st (chunk ! j)"
    show "spaces (chunk' ! j) < spaces (chunk ! j)"
    proof (cases "j = i")
      case True
      with j f(6) f(4) at_i show ?thesis by auto
    next
      case False
      from j have "hit subn st1 (chunk ! j)" using f(2) hit_mono by blast
      with False j ih(9) other [of j] show ?thesis by auto
    qed
  qed
  from ih(1,3,4,5) 1 2 3 4 5 show ?case by simp
qed

section \<open>The catch-up\<close>

lemma todo_pop_subset:
  assumes "k < length todo"
  shows "set ((butlast todo)[k := last todo]) \<subseteq> set todo"
proof -
  from assms have "todo \<noteq> []" by auto
  then have "last todo \<in> set todo" by simp
  moreover have "set (butlast todo) \<subseteq> set todo" by (auto dest: in_set_butlastD)
  ultimately show ?thesis
    using set_update_subset_insert [of "butlast todo" k "last todo"] by auto
qed

lemma catch_up_line_facts:
  "catch_up_line subn line k cur changes todo = Inr (cur', changes', todo') \<Longrightarrow>
   set todo' \<subseteq> set todo \<and> changes \<le> changes'
   \<and> (cur' = cur \<or> (\<exists>r\<in>fst ` set todo. \<exists>n. apply_one subn line r = Inr (cur', n)))
   \<and> (changes < changes' \<longrightarrow>
        (\<exists>r\<in>fst ` set todo. \<exists>l' n. apply_one subn line r = Inr (l', n) \<and> 0 < n))"
proof (induction "length todo - k" arbitrary: k cur changes todo rule: less_induct)
  case less
  show ?case
  proof (cases "k < length todo")
    case False
    with less.prems show ?thesis by (simp add: catch_up_line.simps)
  next
    case True
    obtain r stopline where rs: "todo ! k = (r, stopline)" by (cases "todo ! k")
    define todo1 where "todo1 = (if k = stopline \<and> k \<noteq> length todo - 1
        then (butlast todo)[k := last todo] else todo)"
    from less.prems True rs obtain new cd where
      one: "apply_one subn line r = Inr (new, cd)"
      and rec: "catch_up_line subn line (k + 1) new (changes + cd) todo1
          = Inr (cur', changes', todo')"
      by (subst (asm) catch_up_line.simps) (auto simp: todo1_def split: sum.splits)
    have sub: "set todo1 \<subseteq> set todo"
      using todo_pop_subset [OF True] by (auto simp: todo1_def)
    have len: "length todo1 \<le> length todo" by (simp add: todo1_def)
    have r_in: "r \<in> fst ` set todo"
      using True rs by (metis fst_conv image_eqI nth_mem)
    from len True have "length todo1 - (k + 1) < length todo - k" by simp
    from less.hyps [OF this rec]
    have ih: "set todo' \<subseteq> set todo1" "changes + cd \<le> changes'"
      "cur' = new \<or> (\<exists>r\<in>fst ` set todo1. \<exists>n. apply_one subn line r = Inr (cur', n))"
      "changes + cd < changes' \<longrightarrow>
        (\<exists>r\<in>fst ` set todo1. \<exists>l' n. apply_one subn line r = Inr (l', n) \<and> 0 < n)"
      by blast+
    have 1: "set todo' \<subseteq> set todo" using ih(1) sub by blast
    have 2: "changes \<le> changes'" using ih(2) by simp
    have 3: "cur' = cur \<or> (\<exists>r\<in>fst ` set todo. \<exists>n. apply_one subn line r = Inr (cur', n))"
      using ih(3) one r_in sub by blast
    have 4: "changes < changes' \<longrightarrow>
        (\<exists>r\<in>fst ` set todo. \<exists>l' n. apply_one subn line r = Inr (l', n) \<and> 0 < n)"
    proof (cases "cd = 0")
      case False
      with one r_in show ?thesis by blast
    next
      case True
      with ih(4) sub show ?thesis by auto
    qed
    from 1 2 3 4 show ?thesis by blast
  qed
qed

lemma catch_up_facts:
  assumes "subn_ok subn"
  shows "catch_up subn i chunk changes todo = Inr (chunk', changes', todo') \<Longrightarrow>
    \<forall>r\<in>fst ` set todo. rule_ok r \<Longrightarrow>
    length chunk' = length chunk \<and> changes \<le> changes'
    \<and> (\<forall>j<length chunk. j < i \<longrightarrow> chunk' ! j = chunk ! j)
    \<and> (\<forall>j<length chunk. spaces (chunk' ! j) < spaces (chunk ! j) \<or> chunk' ! j = chunk ! j)
    \<and> (changes < changes' \<longrightarrow>
         (\<exists>j<length chunk. \<exists>r\<in>fst ` set todo. \<exists>l' n. i \<le> j
             \<and> apply_one subn (chunk ! j) r = Inr (l', n) \<and> 0 < n))"
proof (induction "length chunk - i" arbitrary: i chunk changes todo)
  case 0
  then have "\<not> i < length chunk" by simp
  with "0.prems"(1) have "chunk' = chunk" "changes' = changes"
    by (simp_all add: catch_up.simps)
  then show ?case by simp
next
  case (Suc d)
  then have i: "i < length chunk" by simp
  from Suc.prems(1) i obtain cur changes1 todo1 where
    cl: "catch_up_line subn (chunk ! i) 0 (chunk ! i) changes todo = Inr (cur, changes1, todo1)"
    and rec: "catch_up subn (i + 1) (chunk[i := cur]) changes1 todo1
        = Inr (chunk', changes', todo')"
    by (subst (asm) catch_up.simps) (auto split: sum.splits)
  from catch_up_line_facts [OF cl]
  have f: "set todo1 \<subseteq> set todo" "changes \<le> changes1"
    "cur = chunk ! i \<or> (\<exists>r\<in>fst ` set todo. \<exists>n. apply_one subn (chunk ! i) r = Inr (cur, n))"
    "changes < changes1 \<longrightarrow>
      (\<exists>r\<in>fst ` set todo. \<exists>l' n. apply_one subn (chunk ! i) r = Inr (l', n) \<and> 0 < n)"
    by blast+
  have ok1: "\<forall>r\<in>fst ` set todo1. rule_ok r" using Suc.prems(2) f(1) by blast
  have cur: "spaces cur < spaces (chunk ! i) \<or> cur = chunk ! i"
  proof (cases "cur = chunk ! i")
    case True
    then show ?thesis by simp
  next
    case False
    with f(3) obtain r n where r: "r \<in> fst ` set todo"
      "apply_one subn (chunk ! i) r = Inr (cur, n)" by blast
    with Suc.prems(2) have "rule_ok r" by blast
    from apply_one_ok [OF assms this r(2)] False show ?thesis by (cases "n = 0") auto
  qed
  have d: "d = length (chunk[i := cur]) - (i + 1)" using Suc.hyps(2) by simp
  note ih0 = Suc.hyps(1) [OF d rec ok1, unfolded length_list_update]
  from ih0
  have ih: "length chunk' = length chunk" "changes1 \<le> changes'"
    "\<forall>j<length chunk. j < i + 1 \<longrightarrow> chunk' ! j = chunk[i := cur] ! j"
    "\<forall>j<length chunk. spaces (chunk' ! j) < spaces (chunk[i := cur] ! j)
        \<or> chunk' ! j = chunk[i := cur] ! j"
    "changes1 < changes' \<longrightarrow>
      (\<exists>j<length chunk. \<exists>r\<in>fst ` set todo1. \<exists>l' n. i + 1 \<le> j
          \<and> apply_one subn (chunk[i := cur] ! j) r = Inr (l', n) \<and> 0 < n)"
    by blast+
  have at_i: "chunk' ! i = cur" using ih(3) i by simp
  have other: "\<And>j. j \<noteq> i \<Longrightarrow> chunk[i := cur] ! j = chunk ! j" by simp
  have 1: "changes \<le> changes'" using f(2) ih(2) by simp
  have 2: "\<forall>j<length chunk. j < i \<longrightarrow> chunk' ! j = chunk ! j" using ih(3) by auto
  have 3: "\<forall>j<length chunk. spaces (chunk' ! j) < spaces (chunk ! j) \<or> chunk' ! j = chunk ! j"
  proof (intro allI impI)
    fix j assume j: "j < length chunk"
    show "spaces (chunk' ! j) < spaces (chunk ! j) \<or> chunk' ! j = chunk ! j"
    proof (cases "j = i")
      case True
      with at_i cur show ?thesis by simp
    next
      case False
      with j ih(4) other [of j] show ?thesis by auto
    qed
  qed
  have 4: "changes < changes' \<longrightarrow>
      (\<exists>j<length chunk. \<exists>r\<in>fst ` set todo. \<exists>l' n. i \<le> j
          \<and> apply_one subn (chunk ! j) r = Inr (l', n) \<and> 0 < n)"
  proof
    assume lt: "changes < changes'"
    show "\<exists>j<length chunk. \<exists>r\<in>fst ` set todo. \<exists>l' n. i \<le> j
          \<and> apply_one subn (chunk ! j) r = Inr (l', n) \<and> 0 < n"
    proof (cases "changes < changes1")
      case True
      with f(4) obtain r l' n where "r \<in> fst ` set todo"
        "apply_one subn (chunk ! i) r = Inr (l', n)" "0 < n" by blast
      with i show ?thesis by (intro exI [of _ i]) auto
    next
      case False
      with f(2) lt have "changes1 < changes'" by simp
      with ih(5) obtain j r l' n where j: "j < length chunk" "r \<in> fst ` set todo1" "i + 1 \<le> j"
        "apply_one subn (chunk[i := cur] ! j) r = Inr (l', n)" "0 < n" by blast
      from j(2) f(1) have r: "r \<in> fst ` set todo" by blast
      from j(3) have "j \<noteq> i" "i \<le> j" by simp_all
      with j(4) other [of j] have "apply_one subn (chunk ! j) r = Inr (l', n)" by simp
      with j(1,5) r \<open>i \<le> j\<close> show ?thesis by blast
    qed
  qed
  from ih(1) 1 2 3 4 show ?case by simp
qed

section \<open>A pass\<close>

lemma sum_list_nth_le:
  fixes f :: "'a \<Rightarrow> nat"
  assumes "length xs = length ys" "\<forall>j<length ys. f (xs ! j) \<le> f (ys ! j)"
  shows "sum_list (map f xs) \<le> sum_list (map f ys)"
proof -
  have "sum_list (map f xs) = (\<Sum>j = 0..<length xs. f (xs ! j))"
    by (simp add: sum_list_sum_nth)
  also have "\<dots> \<le> (\<Sum>j = 0..<length ys. f (ys ! j))"
    using assms by (auto intro: sum_mono)
  also have "\<dots> = sum_list (map f ys)" by (simp add: sum_list_sum_nth)
  finally show ?thesis .
qed

lemma sum_list_nth_less:
  fixes f :: "'a \<Rightarrow> nat"
  assumes "length xs = length ys" "\<forall>j<length ys. f (xs ! j) \<le> f (ys ! j)"
    and "\<exists>j<length ys. f (xs ! j) < f (ys ! j)"
  shows "sum_list (map f xs) < sum_list (map f ys)"
proof -
  have "sum_list (map f xs) = (\<Sum>j = 0..<length xs. f (xs ! j))"
    by (simp add: sum_list_sum_nth)
  also have "\<dots> = (\<Sum>j = 0..<length ys. f (xs ! j))"
    using assms(1) by simp
  also have "\<dots> < (\<Sum>j = 0..<length ys. f (ys ! j))"
  proof (rule sum_strict_mono_ex1)
    show "finite {0..<length ys}" by simp
    show "\<forall>j\<in>{0..<length ys}. f (xs ! j) \<le> f (ys ! j)" using assms(2) by simp
    show "\<exists>j\<in>{0..<length ys}. f (xs ! j) < f (ys ! j)" using assms(3) by auto
  qed
  also have "\<dots> = sum_list (map f ys)" by (simp add: sum_list_sum_nth)
  finally show ?thesis .
qed

lemma todo_in_rule_ok:
  assumes "todo_in todo st" "comp_inv st"
  shows "\<forall>r\<in>fst ` set todo. rule_ok r"
proof
  fix r assume "r \<in> fst ` set todo"
  with assms(1) have "r \<in> set (map snd (expressions st))" by (auto simp: todo_in_def)
  with comp_inv_rules [OF assms(2)] show "rule_ok r" by (auto simp: list_all_iff)
qed

lemma press_mainloop_progress:
  assumes ok: "subn_ok subn" and inv: "comp_inv st"
    and pm: "press_mainloop subn chunk st = Inr (changes, chunk', st')"
  shows "comp_inv st' \<and> prefix (expressions st) (expressions st')
    \<and> length chunk' = length chunk
    \<and> total_spaces chunk' \<le> total_spaces chunk
    \<and> (changes \<noteq> 0 \<longrightarrow>
         (press_measure subn chunk' st', press_measure subn chunk st)
           \<in> less_than <*lex*> less_than <*lex*> less_than)"
proof -
  from pm obtain chunk1 changes1 todo1 todo2 where
    fp: "first_pass subn 0 chunk 0 [] st = Inr (chunk1, changes1, todo1, st')"
    and cu: "catch_up subn 0 chunk1 changes1 todo1 = Inr (chunk', changes, todo2)"
    by (auto simp: press_mainloop_def split: sum.splits)
  have t0: "todo_in [] st" by (simp add: todo_in_def)
  from first_pass_facts [OF ok fp inv t0]
  have a: "comp_inv st'" "prefix (expressions st) (expressions st')" "todo_in todo1 st'"
    "length chunk1 = length chunk"
    "\<forall>j<length chunk. spaces (chunk1 ! j) < spaces (chunk ! j) \<or> chunk1 ! j = body (chunk ! j)"
    "0 < changes1 \<longrightarrow> (\<exists>j<length chunk. spaces (chunk1 ! j) < spaces (chunk ! j))"
    "\<forall>j<length chunk. hit subn st (chunk ! j) \<longrightarrow> spaces (chunk1 ! j) < spaces (chunk ! j)"
    by auto
  from catch_up_facts [OF ok cu todo_in_rule_ok [OF a(3) a(1)]] a(4)
  have b: "length chunk' = length chunk" "changes1 \<le> changes"
    "\<forall>j<length chunk. spaces (chunk' ! j) < spaces (chunk1 ! j) \<or> chunk' ! j = chunk1 ! j"
    "changes1 < changes \<longrightarrow>
       (\<exists>j<length chunk. \<exists>r\<in>fst ` set todo1. \<exists>l' n.
           apply_one subn (chunk1 ! j) r = Inr (l', n) \<and> 0 < n)"
    by auto
  have le1: "\<forall>j<length chunk. spaces (chunk1 ! j) \<le> spaces (chunk ! j)"
    using a(5) body_shrinks by (fastforce simp: shrinks_def)
  have le2: "\<forall>j<length chunk. spaces (chunk' ! j) \<le> spaces (chunk1 ! j)"
    using b(3) by fastforce
  have le: "\<forall>j<length chunk. spaces (chunk' ! j) \<le> spaces (chunk ! j)"
    using le1 le2 by (meson le_trans)
  have S: "total_spaces chunk' \<le> total_spaces chunk"
    unfolding total_spaces_def using b(1) le by (intro sum_list_nth_le) auto
  have M: "(press_measure subn chunk' st', press_measure subn chunk st)
      \<in> less_than <*lex*> less_than <*lex*> less_than" if ch: "changes \<noteq> 0"
  proof (cases "\<exists>j<length chunk. spaces (chunk' ! j) < spaces (chunk ! j)")
    case True
    have "total_spaces chunk' < total_spaces chunk"
      unfolding total_spaces_def using b(1) le True by (intro sum_list_nth_less) auto
    then show ?thesis by (simp add: press_measure_def)
  next
    case False
    then have eq: "\<forall>j<length chunk. spaces (chunk' ! j) = spaces (chunk ! j)"
      using le by (meson le_neq_implies_less)
    have c1: "\<forall>j<length chunk. chunk1 ! j = body (chunk ! j)"
      using a(5) le2 eq by (metis not_less)
    have c2: "\<forall>j<length chunk. chunk' ! j = chunk1 ! j"
      using b(3) le1 eq by (metis not_less)
    have c: "\<forall>j<length chunk. chunk' ! j = body (chunk ! j)" using c1 c2 by simp
    have Seq: "total_spaces chunk' = total_spaces chunk"
    proof -
      have "map spaces chunk' = map spaces chunk"
        using b(1) eq by (auto simp: list_eq_iff_nth_eq)
      then show ?thesis by (simp add: total_spaces_def)
    qed
    have len_le: "\<forall>j<length chunk. length (chunk' ! j) \<le> length (chunk ! j)"
      using c body_shrinks by (fastforce simp: shrinks_def)
    show ?thesis
    proof (cases "\<exists>j<length chunk. body (chunk ! j) \<noteq> chunk ! j")
      case True
      then obtain j where j: "j < length chunk" "body (chunk ! j) \<noteq> chunk ! j" by blast
      have "shrinks (body (chunk ! j)) (chunk ! j)" by (rule body_shrinks)
      with j have "length (body (chunk ! j)) < length (chunk ! j)"
        by (auto simp: shrinks_def)
      with j c have "\<exists>j<length chunk. length (chunk' ! j) < length (chunk ! j)" by auto
      then have "total_length chunk' < total_length chunk"
        unfolding total_length_def using b(1) len_le by (intro sum_list_nth_less) auto
      with Seq show ?thesis by (simp add: press_measure_def)
    next
      case F2: False
      with c have same: "chunk' = chunk" using b(1) by (auto simp: list_eq_iff_nth_eq)
      have nohit: "\<not> list_ex (hit subn st) chunk"
      proof
        assume "list_ex (hit subn st) chunk"
        then obtain j where "j < length chunk" "hit subn st (chunk ! j)"
          by (auto simp: list_ex_iff in_set_conv_nth)
        with a(7) le2 have "spaces (chunk' ! j) < spaces (chunk ! j)"
          by (meson le_less_trans)
        with False \<open>j < length chunk\<close> show False by blast
      qed
      have "changes1 = 0"
      proof (rule ccontr)
        assume "changes1 \<noteq> 0"
        with a(6) obtain j where "j < length chunk" "spaces (chunk1 ! j) < spaces (chunk ! j)"
          by auto
        with le2 have "spaces (chunk' ! j) < spaces (chunk ! j)" by (meson le_less_trans)
        with False \<open>j < length chunk\<close> show False by blast
      qed
      with ch b(2) have "changes1 < changes" by simp
      with b(4) obtain j r l' n where j: "j < length chunk" "r \<in> fst ` set todo1"
        "apply_one subn (chunk1 ! j) r = Inr (l', n)" "0 < n" by blast
      from j(1) c1 F2 have cj: "chunk1 ! j = chunk ! j" "body (chunk ! j) = chunk ! j" by auto
      from j(2) a(3) have r_in: "r \<in> set (map snd (expressions st'))"
        by (auto simp: todo_in_def)
      have "hit subn st' (chunk ! j)"
      proof (cases "apply_rules subn (map snd (expressions st')) (chunk ! j) 0")
        case (Inl e)
        then show ?thesis by (simp add: hit_def apply_regexes_def cj)
      next
        case (Inr p)
        obtain l2 c2 where p: "p = (l2, c2)" by (cases p)
        from apply_rules_hit [OF ok comp_inv_rules [OF a(1)] r_in j(3) [unfolded cj] j(4)
            Inr [unfolded p]]
        have "0 < c2" .
        with Inr p show ?thesis by (simp add: hit_def apply_regexes_def cj)
      qed
      with j(1) same have "list_ex (hit subn st') chunk'"
        by (auto simp: list_ex_iff)
      with nohit same Seq show ?thesis by (simp add: press_measure_def)
    qed
  qed
  from a(1,2) b(1) S M show ?thesis by blast
qed

section \<open>The loop of press ends\<close>

lemma press_loop_terminates:
  assumes "subn_ok subn" and "comp_inv st"
  shows "\<exists>r. press_loop subn chunk st = Some r"
proof -
  define R where "R = inv_image (less_than <*lex*> less_than <*lex*> less_than)
      (\<lambda>(c, s). press_measure subn c s)"
  have wf: "wf R" unfolding R_def by (intro wf_inv_image wf_lex_prod wf_less_than)
  have "\<forall>chunk st. x = (chunk, st) \<longrightarrow> comp_inv st
      \<longrightarrow> (\<exists>r. press_loop subn chunk st = Some r)" for x
    using wf
  proof (induction x rule: wf_induct_rule)
    case (less x)
    show ?case
    proof (intro allI impI)
      fix chunk st
      assume x: "x = (chunk, st)" and inv: "comp_inv st"
      show "\<exists>r. press_loop subn chunk st = Some r"
      proof (cases "press_mainloop subn chunk st")
        case (Inl e)
        then show ?thesis by (subst press_loop.simps) simp
      next
        case (Inr p)
        obtain changes chunk1 st1 where p: "p = (changes, chunk1, st1)" by (cases p)
        note pr = press_mainloop_progress [OF assms(1) inv Inr [unfolded p]]
        show ?thesis
        proof (cases "changes = 0")
          case True
          with Inr p show ?thesis by (subst press_loop.simps) simp
        next
          case False
          with pr have "((chunk1, st1), x) \<in> R" and "comp_inv st1"
            by (simp_all add: R_def x)
          with less.IH obtain r where "press_loop subn chunk1 st1 = Some r" by blast
          with Inr p False show ?thesis by (subst press_loop.simps) simp
        qed
      qed
    qed
  qed
  with assms(2) show ?thesis by blast
qed


section \<open>The model of re.subn removes a space with every substitution\<close>

lemma compile_literal_space:
  "compile_literal pat = Inr p \<Longrightarrow> CHR '' '' \<in> set pat \<Longrightarrow> CHR '' '' \<in> set p"
proof (induction pat arbitrary: p rule: compile_literal.induct)
  case 1
  then show ?case by simp
next
  case (2 c cs)
  show ?case
  proof (cases "c = backslash")
    case True
    with "2.prems"(1) obtain d ds p' where cs: "cs = d # ds" and na: "\<not> ascii_alnum d"
      and rec: "compile_literal ds = Inr p'" and p: "p = d # p'"
      by (auto split: list.splits if_splits sum.splits)
    from "2.prems"(2) True cs have "d = CHR '' '' \<or> CHR '' '' \<in> set ds" by auto
    then show ?thesis
    proof
      assume "d = CHR '' ''"
      with p show ?thesis by simp
    next
      assume "CHR '' '' \<in> set ds"
      with "2.IH"(1) [OF True cs na rec] p show ?thesis by simp
    qed
  next
    case False
    with "2.prems"(1) obtain p' where ns: "\<not> regex_special c"
      and rec: "compile_literal cs = Inr p'" and p: "p = c # p'"
      by (auto split: if_splits sum.splits)
    from "2.prems"(2) have "c = CHR '' '' \<or> CHR '' '' \<in> set cs" by auto
    then show ?thesis
    proof
      assume "c = CHR '' ''"
      with p show ?thesis by simp
    next
      assume "CHR '' '' \<in> set cs"
      with "2.IH"(2) [OF False ns rec] p show ?thesis by simp
    qed
  qed
qed

lemma replace_all_spaces:
  "replace_all p r s = (s', n) \<Longrightarrow>
   spaces s' + n * spaces p = spaces s + n * spaces r \<and> (n = 0 \<longrightarrow> s' = s)"
proof (induction p r s arbitrary: s' n rule: replace_all.induct)
  case (1 p r)
  then show ?case by simp
next
  case (2 p r c cs)
  show ?case
  proof (cases "p \<noteq> [] \<and> prefix p (c # cs)")
    case True
    obtain s1 n1 where rec: "replace_all p r (drop (length p) (c # cs)) = (s1, n1)"
      by (cases "replace_all p r (drop (length p) (c # cs))")
    with True "2.prems" have res: "s' = r @ s1" "n = Suc n1" by auto
    from True have "c # cs = p @ drop (length p) (c # cs)"
      by (metis append_eq_conv_conj prefix_def)
    then have "spaces (c # cs) = spaces p + spaces (drop (length p) (c # cs))"
      by (metis spaces_simps(3))
    moreover from "2.IH"(1) [OF True rec]
    have "spaces s1 + n1 * spaces p = spaces (drop (length p) (c # cs)) + n1 * spaces r"
      by simp
    ultimately show ?thesis using res by (simp del: spaces_simps(2))
  next
    case False
    obtain s1 n1 where rec: "replace_all p r cs = (s1, n1)"
      by (cases "replace_all p r cs")
    with False "2.prems" have res: "s' = c # s1" "n = n1" by auto
    from "2.IH"(2) [OF False rec] res show ?thesis by auto
  qed
qed

lemma re_subn_ok: "subn_ok re_subn"
  unfolding subn_ok_def
proof (intro allI impI, elim conjE)
  fix p t l l' n
  assume sp: "CHR '' '' \<in> set p" and st: "CHR '' '' \<notin> set t"
    and eq: "re_subn p t l = Inr (l', n)"
  from eq obtain q where q: "compile_literal p = Inr q" and r: "replace_all q t l = (l', n)"
    by (auto simp: re_subn_def split: sum.splits if_splits)
  from compile_literal_space [OF q sp] have "0 < spaces q"
    by (auto simp: spaces_def filter_empty_conv)
  moreover from st have "spaces t = 0" by (auto simp: spaces_def filter_empty_conv)
  moreover note replace_all_spaces [OF r]
  ultimately have "spaces l' + n * spaces q = spaces l" "n = 0 \<longrightarrow> l' = l" "0 < spaces q"
    by simp_all
  then show "(n = 0 \<longrightarrow> l' = l) \<and> (0 < n \<longrightarrow> spaces l' < spaces l)"
    by (metis add_cancel_right_right less_add_same_cancel1 mult_pos_pos neq0_conv
        nat_0_less_mult_iff)
qed

lemma comp_inv_init: "comp_inv RegExCompressor_init"
proof -
  have "counter_digits [0]" by (simp add: counter_digits_def)
  moreover have "Token_init = token_abs (carry_order [0])" by (simp add: Token_init_abs)
  ultimately show ?thesis
    unfolding comp_inv_def RegExCompressor_init_def by auto
qed

section \<open>The rule table along a window\<close>

lemma first_pass_rel:
  assumes refl: "\<And>s. R s s" and trans: "\<And>a b c. R a b \<Longrightarrow> R b c \<Longrightarrow> R a c"
    and step: "\<And>line idx todo s todo' s'.
        map_nodes line idx todo s = Inr (todo', s') \<Longrightarrow> R s s'"
  shows "first_pass subn i chunk changes todo st = Inr (chunk', changes', todo', st')
    \<Longrightarrow> R st st'"
proof (induction "length chunk - i" arbitrary: i chunk changes todo st)
  case 0
  then have "\<not> i < length chunk" by simp
  with "0.prems" have "st' = st" by (simp add: first_pass.simps)
  then show ?case by (simp add: refl)
next
  case (Suc d)
  then have i: "i < length chunk" by simp
  from Suc.prems i obtain new cd todo1 st1 where
    pl: "press_line subn i (chunk ! i) todo st = Inr (new, cd, todo1, st1)"
    and rec: "first_pass subn (i + 1) (chunk[i := new]) (changes + cd) todo1 st1
        = Inr (chunk', changes', todo', st')"
    by (subst (asm) first_pass.simps) (auto split: sum.splits)
  have d: "d = length (chunk[i := new]) - (i + 1)" using Suc.hyps(2) by simp
  from step [OF press_line_cases(2) [OF pl]] Suc.hyps(1) [OF d rec]
  show ?case by (rule trans)
qed

lemma first_pass_length:
  "first_pass subn i chunk changes todo st = Inr (chunk', changes', todo', st')
    \<Longrightarrow> length chunk' = length chunk"
proof (induction "length chunk - i" arbitrary: i chunk changes todo st)
  case 0
  then have "\<not> i < length chunk" by simp
  with "0.prems" show ?case by (simp add: first_pass.simps)
next
  case (Suc d)
  then have i: "i < length chunk" by simp
  from Suc.prems i obtain new cd todo1 st1 where
    rec: "first_pass subn (i + 1) (chunk[i := new]) (changes + cd) todo1 st1
        = Inr (chunk', changes', todo', st')"
    by (subst (asm) first_pass.simps) (auto split: sum.splits)
  have d: "d = length (chunk[i := new]) - (i + 1)" using Suc.hyps(2) by simp
  from Suc.hyps(1) [OF d rec] show ?case by simp
qed

lemma catch_up_length:
  "catch_up subn i chunk changes todo = Inr (chunk', changes', todo')
    \<Longrightarrow> length chunk' = length chunk"
proof (induction "length chunk - i" arbitrary: i chunk changes todo)
  case 0
  then have "\<not> i < length chunk" by simp
  with "0.prems" show ?case by (simp add: catch_up.simps)
next
  case (Suc d)
  then have i: "i < length chunk" by simp
  from Suc.prems i obtain cur changes1 todo1 where
    rec: "catch_up subn (i + 1) (chunk[i := cur]) changes1 todo1
        = Inr (chunk', changes', todo')"
    by (subst (asm) catch_up.simps) (auto split: sum.splits)
  have d: "d = length (chunk[i := cur]) - (i + 1)" using Suc.hyps(2) by simp
  from Suc.hyps(1) [OF d rec] show ?case by simp
qed

lemma press_mainloop_table:
  assumes "press_mainloop subn chunk st = Inr (changes, chunk', st')"
  shows "prefix (expressions st) (expressions st')"
    and "distinct (map fst (expressions st)) \<longrightarrow> distinct (map fst (expressions st'))"
    and "length chunk' = length chunk"
proof -
  from assms obtain chunk1 changes1 todo1 todo2 where
    fp: "first_pass subn 0 chunk 0 [] st = Inr (chunk1, changes1, todo1, st')"
    and cu: "catch_up subn 0 chunk1 changes1 todo1 = Inr (chunk', changes, todo2)"
    by (auto simp: press_mainloop_def split: sum.splits)
  show "prefix (expressions st) (expressions st')"
    using fp
    by (rule first_pass_rel [where R = "\<lambda>s s'. prefix (expressions s) (expressions s')",
          rotated 3])
       (auto dest: map_nodes_facts(1))
  show "distinct (map fst (expressions st)) \<longrightarrow> distinct (map fst (expressions st'))"
    using fp
    by (rule first_pass_rel [where R = "\<lambda>s s'. distinct (map fst (expressions s))
          \<longrightarrow> distinct (map fst (expressions s'))", rotated 3])
       (auto dest: map_nodes_facts(4))
  show "length chunk' = length chunk"
    using first_pass_length [OF fp] catch_up_length [OF cu] by simp
qed

lemma press_loop_table:
  assumes "press_loop subn chunk st = Some y"
  shows "\<forall>chunk' st'. y = Inr (chunk', st') \<longrightarrow>
      prefix (expressions st) (expressions st')
      \<and> (distinct (map fst (expressions st)) \<longrightarrow> distinct (map fst (expressions st')))
      \<and> length chunk' = length chunk"
  using assms
proof (induction rule: press_loop.raw_induct [rotated, consumes 1])
  case (1 press_loop subn chunk st y)
  show ?case
  proof (cases "press_mainloop subn chunk st")
    case (Inl e)
    with 1(2) show ?thesis by auto
  next
    case (Inr p)
    obtain changes chunk1 st1 where p: "p = (changes, chunk1, st1)" by (cases p)
    note t = press_mainloop_table [OF Inr [unfolded p]]
    show ?thesis
    proof (cases "changes = 0")
      case True
      with 1(2) Inr p t show ?thesis by auto
    next
      case False
      with 1(2) Inr p have "press_loop subn chunk1 st1 = Some y" by simp
      from 1(1) [OF this] t show ?thesis by (auto intro: prefix_order.trans)
    qed
  qed
qed

lemma press_loop_inv:
  assumes "press_loop subn chunk st = Some y"
  shows "\<forall>chunk' st'. y = Inr (chunk', st') \<longrightarrow> subn_ok subn \<longrightarrow> comp_inv st
      \<longrightarrow> comp_inv st'"
  using assms
proof (induction rule: press_loop.raw_induct [rotated, consumes 1])
  case (1 press_loop subn chunk st y)
  show ?case
  proof (cases "press_mainloop subn chunk st")
    case (Inl e)
    with 1(2) show ?thesis by auto
  next
    case (Inr p)
    obtain changes chunk1 st1 where p: "p = (changes, chunk1, st1)" by (cases p)
    have t: "subn_ok subn \<Longrightarrow> comp_inv st \<Longrightarrow> comp_inv st1"
      using press_mainloop_progress [OF _ _ Inr [unfolded p]] by blast
    show ?thesis
    proof (cases "changes = 0")
      case True
      with 1(2) Inr p t show ?thesis by auto
    next
      case False
      with 1(2) Inr p have "press_loop subn chunk1 st1 = Some y" by simp
      from 1(1) [OF this] t show ?thesis by auto
    qed
  qed
qed

lemma distinct_key_once:
  "distinct (map fst al) \<Longrightarrow> map_of al k \<noteq> None
    \<Longrightarrow> length (filter (\<lambda>e. fst e = k) al) = 1"
proof (induction al)
  case Nil
  then show ?case by simp
next
  case (Cons e al)
  show ?case
  proof (cases "fst e = k")
    case True
    with Cons.prems(1) have "k \<notin> fst ` set al" by auto
    then have "filter (\<lambda>e. fst e = k) al = []" by (auto simp: filter_empty_conv)
    with True show ?thesis by simp
  next
    case False
    with Cons.prems(2) have "map_of al k \<noteq> None" by (cases e) auto
    with Cons.IH Cons.prems(1) False show ?thesis by simp
  qed
qed

lemma map_of_prefix_present:
  assumes "map_of al k \<noteq> None" and "prefix al al'"
  shows "map_of al' k \<noteq> None"
proof -
  from assms(1) have "k \<in> fst ` set al" by (simp add: map_of_eq_None_iff)
  moreover from assms(2) have "set al \<subseteq> set al'" by (rule set_mono_prefix)
  ultimately have "k \<in> fst ` set al'" by blast
  then show ?thesis by (simp add: map_of_eq_None_iff)
qed

lemma gen_regex_present:
  "gen_regex node1 node2 st = Inr (r, st')
    \<Longrightarrow> map_of (expressions st') (node1 @ '' '' @ node2) \<noteq> None"
  by (erule gen_regex_cases) auto

lemma gen_regex_known:
  "map_of (expressions st) (node1 @ '' '' @ node2) \<noteq> None
    \<Longrightarrow> gen_regex node1 node2 st = Inr (None, st)"
  by (auto simp: gen_regex_def Let_def)

section \<open>The graph walk of a pass\<close>

lemma first_pass_walk:
  "first_pass subn i chunk changes todo st = Inr (chunk', changes', todo', st')
    \<Longrightarrow> walk_all i (map body (drop i chunk)) todo st = Inr (todo', st')"
proof (induction "length chunk - i" arbitrary: i chunk changes todo st)
  case 0
  then have "\<not> i < length chunk" by simp
  with "0.prems" show ?case by (simp add: first_pass.simps)
next
  case (Suc d)
  then have i: "i < length chunk" by simp
  from Suc.prems i obtain new cd todo1 st1 where
    pl: "press_line subn i (chunk ! i) todo st = Inr (new, cd, todo1, st1)"
    and rec: "first_pass subn (i + 1) (chunk[i := new]) (changes + cd) todo1 st1
        = Inr (chunk', changes', todo', st')"
    by (subst (asm) first_pass.simps) (auto split: sum.splits)
  have d: "d = length (chunk[i := new]) - (i + 1)" using Suc.hyps(2) by simp
  from Suc.hyps(1) [OF d rec]
  have "walk_all (i + 1) (map body (drop (i + 1) chunk)) todo1 st1 = Inr (todo', st')"
    by simp
  moreover have "drop i chunk = chunk ! i # drop (i + 1) chunk"
    using i by (simp add: Cons_nth_drop_Suc)
  ultimately show ?case
    using press_line_cases(2) [OF pl] by simp
qed

section \<open>The graph walk of a pass\<close>

text \<open>
  C5 on the code. In the first pass over 25 lines \<open>a b c\<close>, the rules of \<open>a b\<close> and
  \<open>b c\<close> are made at the fifth line, and the lines after it are stored as \<open><1> c\<close>.
  The graph walk of those lines is done on \<open>a b c\<close>, the body before the rules were
  applied: after the pass the graph has the words \<open>a\<close>, \<open>b\<close>, \<open>c\<close> and no node for
  \<open><1>\<close>. On one line: with the rule of \<open>a b\<close> in the table, the loop body interns
  \<open>a\<close>, \<open>b\<close>, \<open>c\<close>, where a walk of the rule-applied body interns \<open><1>\<close> and \<open>c\<close>.
\<close>

theorem graph_walk_before_rules:
  "map_sum id (\<lambda>(changes, chunk', st').
        (chunk' ! 5, map fst (phrases st'), map fst (expressions st')))
     (press_mainloop re_subn (encode (replicate 25 (''a b c'' @ [newline])))
        RegExCompressor_init)
     = Inr (''<1> c'', [[newline], ''a'', ''b'', ''c''], [''a b'', ''b c''])
   \<and> map_sum id (\<lambda>(new, cd, todo, st). (new, map fst (phrases st)))
       (press_line re_subn 0 ''a b c'' []
          (snd (projr (gen_regex ''a'' ''b'' RegExCompressor_init))))
     = Inr (''<1> c'', [[newline], ''a'', ''b'', ''c''])
   \<and> map_sum id (\<lambda>(new, cd, todo, st). (new, map fst (phrases st)))
       (press_line_spec re_subn 0 ''a b c'' []
          (snd (projr (gen_regex ''a'' ''b'' RegExCompressor_init))))
     = Inr (''<1> c'', [[newline], ''<1>'', ''c''])"
  by code_simp

theorem graph_walk_before_rules_witness:
  "map_sum id (\<lambda>(changes, chunk', st').
        (chunk' ! 5, map fst (phrases st'), map fst (expressions st')))
     (press_mainloop re_subn (encode (replicate 25 (''a b c'' @ [newline])))
        RegExCompressor_init)
     = Inr (''<1> c'', [[newline], ''a'', ''b'', ''c''], [''a b'', ''b c''])"
  by (rule graph_walk_before_rules [THEN conjunct1])

text \<open>
  In general: the graph, the rule table and the allocator after a pass are those got
  by walking the bodies of the lines of the window as it was when the pass began,
  whatever the substitutions of the pass were.
\<close>

theorem graph_walk_of_pass:
  assumes "press_mainloop subn chunk st = Inr (changes, chunk', st')"
  shows "\<exists>todo. walk_all 0 (map body chunk) [] st = Inr (todo, st')"
proof -
  from assms obtain chunk1 changes1 todo1 where
    "first_pass subn 0 chunk 0 [] st = Inr (chunk1, changes1, todo1, st')"
    by (auto simp: press_mainloop_def split: sum.splits)
  from first_pass_walk [OF this] show ?thesis by auto
qed

theorem graph_walk_of_pass_witness:
  "\<exists>changes chunk' st' todo.
     press_mainloop re_subn (replicate 5 ''a b c'') RegExCompressor_init
       = Inr (changes, chunk', st')
     \<and> walk_all 0 (map body (replicate 5 ''a b c'')) [] RegExCompressor_init = Inr (todo, st')
     \<and> map fst (expressions st') = [''a b'', ''b c'']"
proof -
  have "\<not> isl (press_mainloop re_subn (replicate 5 ''a b c'') RegExCompressor_init)"
    by code_simp
  then obtain changes chunk' st' where
    pm: "press_mainloop re_subn (replicate 5 ''a b c'') RegExCompressor_init
      = Inr (changes, chunk', st')"
    by (cases "press_mainloop re_subn (replicate 5 ''a b c'') RegExCompressor_init") auto
  then have st': "st' = snd (snd (projr
      (press_mainloop re_subn (replicate 5 ''a b c'') RegExCompressor_init)))"
    by simp
  have "map fst (expressions (snd (snd (projr
      (press_mainloop re_subn (replicate 5 ''a b c'') RegExCompressor_init)))))
      = [''a b'', ''b c'']"
    by code_simp
  with st' have e: "map fst (expressions st') = [''a b'', ''b c'']" by simp
  from graph_walk_of_pass [OF pm] obtain todo where
    w: "walk_all 0 (map body (replicate 5 ''a b c'')) [] RegExCompressor_init = Inr (todo, st')"
    by (elim exE)
  from pm w e show ?thesis by (intro exI conjI)
qed

section \<open>Rule induction is idempotent\<close>

text \<open>
  C9. After a rule was induced for a phrase, in any state whose table has distinct
  keys, inducing it again returns no rule and leaves the state as it is (no token is
  taken, the table is the same), and the table has one entry for the phrase; the same
  holds in the state that pressing a further window leaves.
\<close>

theorem gen_regex_idempotent:
  assumes "distinct (map fst (expressions st))"
    and "gen_regex node1 node2 st = Inr (r, st1)"
    and "press subn chunk st1 = Some (Inr (chunk', st2))"
  shows "gen_regex node1 node2 st1 = Inr (None, st1)
    \<and> length (filter (\<lambda>e. fst e = node1 @ '' '' @ node2) (expressions st1)) = 1
    \<and> gen_regex node1 node2 st2 = Inr (None, st2)
    \<and> length (filter (\<lambda>e. fst e = node1 @ '' '' @ node2) (expressions st2)) = 1"
proof -
  have d1: "distinct (map fst (expressions st1))"
    using assms(2,1) by (rule gen_regex_distinct)
  have p1: "map_of (expressions st1) (node1 @ '' '' @ node2) \<noteq> None"
    using assms(2) by (rule gen_regex_present)
  from assms(3) have "press_loop subn (encode chunk) st1 = Some (Inr (chunk', st2))"
    by (simp add: press_def)
  from press_loop_table [OF this] d1
  have t: "prefix (expressions st1) (expressions st2)" "distinct (map fst (expressions st2))"
    by simp_all
  have p2: "map_of (expressions st2) (node1 @ '' '' @ node2) \<noteq> None"
    using p1 t(1) by (rule map_of_prefix_present)
  show ?thesis
    using gen_regex_known [OF p1] gen_regex_known [OF p2]
      distinct_key_once [OF d1 p1] distinct_key_once [OF t(2) p2]
    by simp
qed

theorem gen_regex_idempotent_witness:
  "\<exists>r st1 chunk' st2.
     distinct (map fst (expressions RegExCompressor_init))
     \<and> gen_regex ''c'' ''d'' RegExCompressor_init = Inr (Some r, st1)
     \<and> press re_subn (replicate 5 ''a b c d'') st1 = Some (Inr (chunk', st2))
     \<and> gen_regex ''c'' ''d'' st2 = Inr (None, st2)
     \<and> length (filter (\<lambda>e. fst e = ''c'' @ '' '' @ ''d'') (expressions st2)) = 1"
proof -
  define g where "g = gen_regex ''c'' ''d'' RegExCompressor_init"
  have "\<not> isl g \<and> fst (projr g) \<noteq> None" unfolding g_def by code_simp
  then obtain r st1 where g: "g = Inr (Some r, st1)"
    by (cases g) auto
  then have st1: "st1 = snd (projr g)" by simp
  define q where "q = press re_subn (replicate 5 ''a b c d'') (snd (projr g))"
  have "q \<noteq> None \<and> \<not> isl (the q)" unfolding q_def g_def by code_simp
  then obtain chunk' st2 where q: "q = Some (Inr (chunk', st2))"
    by (cases q; cases "the q") auto
  have d: "distinct (map fst (expressions RegExCompressor_init))"
    by (simp add: RegExCompressor_init_def)
  from g have g': "gen_regex ''c'' ''d'' RegExCompressor_init = Inr (Some r, st1)"
    by (simp add: g_def)
  from q have q': "press re_subn (replicate 5 ''a b c d'') st1 = Some (Inr (chunk', st2))"
    by (simp add: q_def st1)
  note gi = gen_regex_idempotent [OF d g' q']
  have a: "gen_regex ''c'' ''d'' st2 = Inr (None, st2)"
    by (rule gi [THEN conjunct2, THEN conjunct2, THEN conjunct1])
  have b: "length (filter (\<lambda>e. fst e = ''c'' @ '' '' @ ''d'') (expressions st2)) = 1"
    by (rule gi [THEN conjunct2, THEN conjunct2, THEN conjunct2])
  from d g' q' a b show ?thesis by blast
qed

section \<open>The loop of press\<close>

text \<open>
  C10 on the code. In the first pass over the window below, the catch-up counts five
  substitutions of the rule \<open>a b\<close> and overwrites each of them with the result of the
  rule \<open>c d\<close>, which matches no line (every entry of the catch-up list is applied to
  the line as it was before the catch-up): the pass reports five changes, and the
  window has as many spaces as before. The loop ends all the same, the next pass
  applying the rule.
\<close>

theorem press_pass_keeps_spaces:
  "(case press_mainloop re_subn
           (encode (replicate 5 (''a b'' @ [newline]) @ replicate 5 (''c  d'' @ [newline])
              @ replicate 15 [newline]))
           RegExCompressor_init of
      Inl e \<Rightarrow> False
    | Inr (changes, chunk', st') \<Rightarrow>
        changes = 5
        \<and> total_spaces chunk'
            = total_spaces (encode (replicate 5 (''a b'' @ [newline])
                @ replicate 5 (''c  d'' @ [newline]) @ replicate 15 [newline])))
   \<and> map_option (map_sum id fst)
       (press re_subn
          (replicate 5 (''a b'' @ [newline]) @ replicate 5 (''c  d'' @ [newline])
             @ replicate 15 [newline])
          RegExCompressor_init)
     = Some (Inr (replicate 5 ''<1>'' @ replicate 5 ''c  d'' @ replicate 15 []))"
  by code_simp

theorem press_pass_keeps_spaces_witness:
  "map_option (map_sum id fst)
       (press re_subn
          (replicate 5 (''a b'' @ [newline]) @ replicate 5 (''c  d'' @ [newline])
             @ replicate 15 [newline])
          RegExCompressor_init)
     = Some (Inr (replicate 5 ''<1>'' @ replicate 5 ''c  d'' @ replicate 15 []))"
  by (rule press_pass_keeps_spaces [THEN conjunct2])

text \<open>
  The loop of \<open>press\<close> ends, for every window and every state that the algorithm
  reaches, given that every counted substitution of \<open>re.subn\<close> removes a space. No pass
  adds a space; a pass that reports changes lowers, in lexicographic order, the number
  of spaces, the number of characters, and the flag that no rule of the table applies
  to a line. So a pass that reports changes without removing a space or a character
  is followed by a pass in which the rules apply, and that one removes a space.
\<close>

theorem press_terminates:
  assumes "subn_ok subn" and "comp_inv st"
  shows "(\<exists>r. press subn chunk st = Some r)
    \<and> (\<forall>c changes c' st'. press_mainloop subn c st = Inr (changes, c', st') \<longrightarrow>
          comp_inv st' \<and> total_spaces c' \<le> total_spaces c
          \<and> (changes \<noteq> 0 \<longrightarrow>
               (press_measure subn c' st', press_measure subn c st)
                 \<in> less_than <*lex*> less_than <*lex*> less_than))
    \<and> (\<forall>chunk' st'. press subn chunk st = Some (Inr (chunk', st')) \<longrightarrow>
          comp_inv st' \<and> length chunk' = length chunk)"
proof (intro conjI allI impI)
  show "\<exists>r. press subn chunk st = Some r"
    unfolding press_def using assms by (rule press_loop_terminates)
next
  fix c changes c' st'
  assume pm: "press_mainloop subn c st = Inr (changes, c', st')"
  note pr = press_mainloop_progress [OF assms pm]
  from pr show "comp_inv st'" by blast
  from pr show "total_spaces c' \<le> total_spaces c" by blast
  assume "changes \<noteq> 0"
  with pr show "(press_measure subn c' st', press_measure subn c st)
      \<in> less_than <*lex*> less_than <*lex*> less_than" by blast
next
  fix chunk' st'
  assume "press subn chunk st = Some (Inr (chunk', st'))"
  then have pl: "press_loop subn (encode chunk) st = Some (Inr (chunk', st'))"
    by (simp add: press_def)
  from press_loop_inv [OF pl] assms show "comp_inv st'" by blast
  from press_loop_table [OF pl] show "length chunk' = length chunk"
    by (simp add: encode_def)
qed

theorem press_terminates_witness:
  "subn_ok re_subn \<and> comp_inv RegExCompressor_init
   \<and> (\<exists>r. press re_subn
            (replicate 5 (''a b'' @ [newline]) @ replicate 5 (''c  d'' @ [newline])
               @ replicate 15 [newline])
            RegExCompressor_init = Some r)"
proof (intro conjI)
  show "subn_ok re_subn" by (rule re_subn_ok)
  show "comp_inv RegExCompressor_init" by (rule comp_inv_init)
  show "\<exists>r. press re_subn
            (replicate 5 (''a b'' @ [newline]) @ replicate 5 (''c  d'' @ [newline])
               @ replicate 15 [newline])
            RegExCompressor_init = Some r"
    by (rule press_terminates [OF re_subn_ok comp_inv_init, THEN conjunct1])
qed


section \<open>The line encoder on an example\<close>

text \<open>
  C3, as it is stated, fails: the trailer that \<open>split_trailer\<close> returns for the encoded
  line does not contain \<open>session=1\<close>. The encoder wraps the braces and the run \<open>=1}\<close> as
  punctuation, so the encoded line does not end in a brace and has no trailing
  annotation to extract.
\<close>

theorem split_trailer_session_counterexample:
  "\<not> (let (body, trailer) =
           split_trailer (encode_punct_and_digits ''Error 404 occurred {session=1}'')
       in sublist ''#'' body \<and> \<not> sublist ''404'' body
          \<and> sublist ''404'' trailer \<and> sublist ''session=1'' trailer)"
  by code_simp

text \<open>
  C3, amended. Encoding the line \<open>Error 404 occurred {session=1}\<close> and splitting its
  trailer yields the body \<open>Error # occurred #session#\<close>, in which the digit run 404 (and
  the runs \<open>{\<close> and \<open>=1}\<close>) are replaced by the placeholder, and the trailer
  \<open> {404 { =1}}\<close>, which contains the literals \<open>404\<close> and \<open>=1}\<close>; the word \<open>session\<close> stays
  in the body.
\<close>

theorem split_trailer_session:
  "split_trailer (encode_punct_and_digits ''Error 404 occurred {session=1}'')
     = (''Error # occurred #session#'', '' {404 { =1}}'')
   \<and> sublist ''404'' '' {404 { =1}}'' \<and> sublist ''=1}'' '' {404 { =1}}''
   \<and> sublist ''session'' ''Error # occurred #session#''"
  by code_simp

theorem split_trailer_session_witness:
  "split_trailer (encode_punct_and_digits ''Error 404 occurred {session=1}'')
     = (''Error # occurred #session#'', '' {404 { =1}}'')"
  by (rule split_trailer_session [THEN conjunct1])

section \<open>The pipeline on concrete files\<close>

text \<open>
  C1 on the code. \<open>compress\<close> presses a chunk when its 25th line is read and has no
  step for the lines left when the file ends. A file of 26 lines gives 25 compressed
  lines; a file of one line gives none, and \<open>cat_lines\<close> then yields the marker and the
  report only.
\<close>

theorem compress_partial_window:
  "map_option (map_sum id (\<lambda>st. map_option length (compressed_output st)))
     (compress re_subn (replicate 26 (''hello world'' @ [newline])) RegExCompressor_init)
     = Some (Inr (Some 25))
   \<and> map_option (map_sum id (\<lambda>st. (compressed_output st, cat_lines re_subn st)))
       (compress re_subn [''hello world'' @ [newline]] RegExCompressor_init)
     = Some (Inr (Some [], Inr [[newline] @ ''## EXPRESSIONS ##'' @ [newline], []]))"
  by code_simp

theorem compress_partial_window_witness:
  "map_option (map_sum id (\<lambda>st. map_option length (compressed_output st)))
     (compress re_subn (replicate 26 (''hello world'' @ [newline])) RegExCompressor_init)
     = Some (Inr (Some 25))"
  by (rule compress_partial_window [THEN conjunct1])

text \<open>
  C2 on the code. The line \<open>Error 404 occurred\<close> has the trailer \<open> {404}\<close>. The first loop
  of \<open>press_mainloop\<close> stores the body without it, and \<open>cat_lines\<close> finds no trailer in
  what was stored: the line comes out as \<open>Error # occurred\<close>.
\<close>

theorem trailer_lost:
  "split_trailer (encode_punct_and_digits (''Error 404 occurred'' @ [newline]))
     = (''Error # occurred'', '' {404}'')
   \<and> map_option (map_sum id (\<lambda>st. map_sum id (\<lambda>ls. ls ! 0) (cat_lines re_subn st)))
       (compress re_subn ((''Error 404 occurred'' @ [newline]) # replicate 24 [newline])
          RegExCompressor_init)
     = Some (Inr (Inr ''Error # occurred''))"
  by code_simp

theorem trailer_lost_witness:
  "map_option (map_sum id (\<lambda>st. map_sum id (\<lambda>ls. ls ! 0) (cat_lines re_subn st)))
     (compress re_subn ((''Error 404 occurred'' @ [newline]) # replicate 24 [newline])
        RegExCompressor_init)
     = Some (Inr (Inr ''Error # occurred''))"
  by (rule trailer_lost [THEN conjunct2])

text \<open>
  C4 on the code. In the window below the rule for \<open>a b\<close> is made at line 0 and the rule
  for \<open>c d\<close> at line 1. In the catch-up of line 0 the entry of \<open>a b\<close> is at position 0 of
  the list and carries the line index 0: it is overwritten by the popped entry of
  \<open>c d\<close>, and the iteration over the list ends there. The rule \<open>c d\<close> is not applied to
  line 0. The pass reports no change, so the window is at its fixpoint with \<open>c d\<close> still
  in line 0.
\<close>

theorem catch_up_skips_line:
  "map_option (map_sum id (\<lambda>st. (map_option (take 2) (compressed_output st),
                                  map fst (expressions st))))
     (compress re_subn
        ([''a  b a  b a  b a  b a  b c d'' @ [newline], ''c  d c  d c  d c  d'' @ [newline]]
           @ replicate 23 [newline])
        RegExCompressor_init)
     = Some (Inr (Some [''a  b a  b a  b a  b a  b c d'', ''c  d c  d c  d c  d''],
                  [''a b'', ''c d'']))
   \<and> catch_up re_subn 0 [''a  b a  b a  b a  b a  b c d'', ''c  d c  d c  d c  d''] 0
       [(\<lparr>replaces = ''a b'', regex = ''a b'', token = ''<1>''\<rparr>, 0),
        (\<lparr>replaces = ''c d'', regex = ''c d'', token = ''<2>''\<rparr>, 1)]
     = Inr ([''a  b a  b a  b a  b a  b c d'', ''c  d c  d c  d c  d''], 0,
            [(\<lparr>replaces = ''c d'', regex = ''c d'', token = ''<2>''\<rparr>, 1)])"
  by code_simp

theorem catch_up_skips_line_witness:
  "catch_up re_subn 0 [''a  b a  b a  b a  b a  b c d'', ''c  d c  d c  d c  d''] 0
       [(\<lparr>replaces = ''a b'', regex = ''a b'', token = ''<1>''\<rparr>, 0),
        (\<lparr>replaces = ''c d'', regex = ''c d'', token = ''<2>''\<rparr>, 1)]
     = Inr ([''a  b a  b a  b a  b a  b c d'', ''c  d c  d c  d c  d''], 0,
            [(\<lparr>replaces = ''c d'', regex = ''c d'', token = ''<2>''\<rparr>, 1)])"
  by (rule catch_up_skips_line [THEN conjunct2])

text \<open>
  C6 on the code. A backslash is not in the encoder's class, so a word can end in one.
  The phrase \<open>foo bar\\<close> becomes a rule at the fifth line, and applying the rule to the
  sixth line compiles the phrase as a pattern: \<open>re.subn\<close> raises \<open>re.error\<close>.
\<close>

theorem compress_regex_error:
  "compress re_subn (replicate 25 (''foo bar'' @ [backslash, newline])) RegExCompressor_init
     = Some (Inl RegexError)"
  by code_simp

theorem compress_regex_error_witness:
  "\<exists>e. compress re_subn (replicate 25 (''foo bar'' @ [backslash, newline]))
         RegExCompressor_init = Some (Inl e)"
  using compress_regex_error by blast

end
